theory Spec2Isabelle
  imports Main "HOL-Library.Word" "HOL-Library.Monad_Syntax"
begin

unbundle bit_operations_syntax

section \<open>Constants of main.c\<close>

text \<open>Command bytes (the \<open>CMD_*\<close> macros) and the line terminator \<open>'\n'\<close>.\<close>

definition CMD_UP :: char where "CMD_UP = CHR ''U''"
definition CMD_DOWN :: char where "CMD_DOWN = CHR ''D''"
definition CMD_RIGHT :: char where "CMD_RIGHT = CHR ''R''"
definition CMD_LEFT :: char where "CMD_LEFT = CHR ''L''"
definition CMD_ACTION_A :: char where "CMD_ACTION_A = CHR ''A''"
definition CMD_ACTION_B :: char where "CMD_ACTION_B = CHR ''B''"
definition CMD_HEARTBEAT :: char where "CMD_HEARTBEAT = CHR ''H''"
definition NEWLINE :: char where "NEWLINE = CHR 0x0A"

text \<open>
  Modelled from the spec: the bit numbers \<open>PB3\<close>, \<open>PB4\<close>, \<open>PC2\<close>, \<open>PC3\<close>, \<open>PD2\<close>, \<open>PD5\<close>
  come from the device header \<open>avr/io.h\<close>, which is not among the sources; the pin table
  of the specification (and the pin names themselves) give bit 3, 4, 2, 3, 2 and 5.
\<close>

definition PB3 :: nat where "PB3 = 3"
definition PB4 :: nat where "PB4 = 4"
definition PC2 :: nat where "PC2 = 2"
definition PC3 :: nat where "PC3 = 3"
definition PD2 :: nat where "PD2 = 2"
definition PD5 :: nat where "PD5 = 5"

text \<open>The button masks \<open>(1 << Pxn)\<close>, as they meet an 8-bit port value.\<close>

definition BTN_UP :: "8 word" where "BTN_UP = push_bit PC3 1"
definition BTN_DOWN :: "8 word" where "BTN_DOWN = push_bit PB3 1"
definition BTN_RIGHT :: "8 word" where "BTN_RIGHT = push_bit PB4 1"
definition BTN_LEFT :: "8 word" where "BTN_LEFT = push_bit PC2 1"
definition BTN_ACTION_A :: "8 word" where "BTN_ACTION_A = push_bit PD5 1"
definition BTN_ACTION_B :: "8 word" where "BTN_ACTION_B = push_bit PD2 1"

definition UART_BUFFER_SIZE :: nat where "UART_BUFFER_SIZE = 32"

section \<open>The global state\<close>

text \<open>
  The globals of main.c, under their own names. Two fields stand for the USART
  hardware: \<open>UDR0\<close> is the trace of every byte written to the data register, oldest
  first (the bytes handed to the channel), and \<open>tx_busy\<close> tells whether a byte written
  to the data register is still being shifted out, so that its transmit-complete
  interrupt is yet to come.
\<close>

record state =
  uart_tx_buffer :: "char list"
  uart_tx_head :: "8 word"
  uart_tx_tail :: "8 word"
  uart_transmitting :: bool
  last_portb :: "8 word"
  last_portc :: "8 word"
  last_portd :: "8 word"
  UDR0 :: "char list"
  tx_busy :: bool

text \<open>The state at reset: C zero-initialises the globals, the transmitter is idle.\<close>

definition initial :: state where
  "initial = \<lparr> uart_tx_buffer = replicate UART_BUFFER_SIZE (CHR 0x00),
               uart_tx_head = 0, uart_tx_tail = 0, uart_transmitting = False,
               last_portb = 0, last_portc = 0, last_portd = 0,
               UDR0 = [], tx_busy = False \<rparr>"

section \<open>The serial transmitter\<close>

text \<open>
  \<open>(i + 1) % UART_BUFFER_SIZE\<close>: the index is promoted to \<open>int\<close>, incremented, reduced
  and stored back into a \<open>uint8_t\<close>.
\<close>

definition advance :: "8 word \<Rightarrow> 8 word" where
  "advance i = of_nat ((unat i + 1) mod UART_BUFFER_SIZE)"

text \<open>The assignment \<open>UDR0 = c\<close>: the byte goes to the channel, which is busy from then on.\<close>

definition write_UDR0 :: "char \<Rightarrow> state \<Rightarrow> state" where
  "write_UDR0 c s = s\<lparr> UDR0 := UDR0 s @ [c], tx_busy := True \<rparr>"

definition uart_start_if_idle :: "state \<Rightarrow> state" where
  "uart_start_if_idle s =
     (if \<not> uart_transmitting s \<and> uart_tx_head s \<noteq> uart_tx_tail s then
        (let s1 = s\<lparr> uart_transmitting := True \<rparr>;
             s2 = write_UDR0 (uart_tx_buffer s1 ! unat (uart_tx_tail s1)) s1
         in s2\<lparr> uart_tx_tail := advance (uart_tx_tail s2) \<rparr>)
      else s)"

text \<open>The completion callback \<open>ISR(USART_TX_vect)\<close>.\<close>

definition USART_TX_vect :: "state \<Rightarrow> state" where
  "USART_TX_vect s =
     (if uart_tx_head s \<noteq> uart_tx_tail s then
        (let s1 = write_UDR0 (uart_tx_buffer s ! unat (uart_tx_tail s)) s
         in s1\<lparr> uart_tx_tail := advance (uart_tx_tail s1) \<rparr>)
      else s\<lparr> uart_transmitting := False \<rparr>)"

text \<open>
  A drain event: the hardware finishes the byte it is shifting out and invokes the
  completion callback. It cannot happen while the channel is not busy.
\<close>

definition tx_complete :: "state \<Rightarrow> state option" where
  "tx_complete s = (if tx_busy s then Some (USART_TX_vect (s\<lparr> tx_busy := False \<rparr>)) else None)"

text \<open>
  The busy-wait \<open>while (next_head == uart_tx_tail) { }\<close>. Its body is empty, so only a
  drain event can end it. The first argument is the number of drain events that arrive
  while the loop spins; when the loop still spins after the last of them it never
  returns, which is \<open>None\<close>.
\<close>

fun wait_while_full :: "nat \<Rightarrow> 8 word \<Rightarrow> state \<Rightarrow> state option" where
  "wait_while_full 0 next_head s =
     (if next_head = uart_tx_tail s then None else Some s)"
| "wait_while_full (Suc n) next_head s =
     (if next_head = uart_tx_tail s then
        (case tx_complete s of None \<Rightarrow> None | Some s' \<Rightarrow> wait_while_full n next_head s')
      else Some s)"

text \<open>\<open>uart_send_char\<close>, the enqueue operation, with \<open>n\<close> drain events at hand while it waits.\<close>

definition uart_send_char :: "nat \<Rightarrow> char \<Rightarrow> state \<Rightarrow> state option" where
  "uart_send_char n data s =
     (let next_head = advance (uart_tx_head s) in
      case wait_while_full n next_head s of
        None \<Rightarrow> None
      | Some s1 \<Rightarrow>
          Some (uart_start_if_idle
                  (s1\<lparr> uart_tx_buffer := (uart_tx_buffer s1)[unat (uart_tx_head s1) := data],
                       uart_tx_head := next_head \<rparr>)))"

text \<open>
  \<open>uart_send_string\<close>: one enqueue per byte up to the terminating NUL, which ends the
  list here at the latest.
\<close>

fun uart_send_string :: "nat \<Rightarrow> char list \<Rightarrow> state \<Rightarrow> state option" where
  "uart_send_string n [] s = Some s"
| "uart_send_string n (c # cs) s =
     (if c = CHR 0x00 then Some s
      else case uart_send_char n c s of
             None \<Rightarrow> None
           | Some s' \<Rightarrow> uart_send_string n cs s')"

section \<open>The edge detector\<close>

text \<open>
  The pin-change handlers take the value read from the input register (\<open>PINB\<close>, \<open>PINC\<close>,
  \<open>PIND\<close>) as their argument. A handler runs with interrupts masked, so no drain event
  arrives while one of its enqueues waits: a wait there never ends, and the handler
  does not return (\<open>None\<close>).
\<close>

definition PCINT0_vect :: "8 word \<Rightarrow> state \<Rightarrow> state option" where
  "PCINT0_vect PINB s =
     (let current = PINB; changed = current XOR last_portb s in
      do {
        s1 \<leftarrow> (if changed AND BTN_DOWN \<noteq> 0 \<and> \<not> (current AND BTN_DOWN \<noteq> 0) then
                do { s' \<leftarrow> uart_send_char 0 CMD_DOWN s; uart_send_char 0 NEWLINE s' }
              else Some s);
        s2 \<leftarrow> (if changed AND BTN_RIGHT \<noteq> 0 \<and> \<not> (current AND BTN_RIGHT \<noteq> 0) then
                do { s' \<leftarrow> uart_send_char 0 CMD_RIGHT s1; uart_send_char 0 NEWLINE s' }
              else Some s1);
        Some (s2\<lparr> last_portb := current \<rparr>)
      })"

definition PCINT1_vect :: "8 word \<Rightarrow> state \<Rightarrow> state option" where
  "PCINT1_vect PINC s =
     (let current = PINC; changed = current XOR last_portc s in
      do {
        s1 \<leftarrow> (if changed AND BTN_UP \<noteq> 0 \<and> \<not> (current AND BTN_UP \<noteq> 0) then
                do { s' \<leftarrow> uart_send_char 0 CMD_UP s; uart_send_char 0 NEWLINE s' }
              else Some s);
        s2 \<leftarrow> (if changed AND BTN_LEFT \<noteq> 0 \<and> \<not> (current AND BTN_LEFT \<noteq> 0) then
                do { s' \<leftarrow> uart_send_char 0 CMD_LEFT s1; uart_send_char 0 NEWLINE s' }
              else Some s1);
        Some (s2\<lparr> last_portc := current \<rparr>)
      })"

definition PCINT2_vect :: "8 word \<Rightarrow> state \<Rightarrow> state option" where
  "PCINT2_vect PIND s =
     (let current = PIND; changed = current XOR last_portd s in
      do {
        s1 \<leftarrow> (if changed AND BTN_ACTION_A \<noteq> 0 \<and> \<not> (current AND BTN_ACTION_A \<noteq> 0) then
                do { s' \<leftarrow> uart_send_char 0 CMD_ACTION_A s; uart_send_char 0 NEWLINE s' }
              else Some s);
        s2 \<leftarrow> (if changed AND BTN_ACTION_B \<noteq> 0 \<and> \<not> (current AND BTN_ACTION_B \<noteq> 0) then
                do { s' \<leftarrow> uart_send_char 0 CMD_ACTION_B s1; uart_send_char 0 NEWLINE s' }
              else Some s1);
        Some (s2\<lparr> last_portd := current \<rparr>)
      })"

section \<open>The main loop\<close>

text \<open>
  One iteration of \<open>while (1)\<close> in \<open>main\<close>, on the 16-bit \<open>heartbeat_counter\<close> and the
  globals; the delay has no effect on either. The main loop runs with interrupts
  enabled, so its enqueues may be given drain events (\<open>n\<close> for each).
\<close>

definition main_loop_body :: "nat \<Rightarrow> 16 word \<times> state \<Rightarrow> (16 word \<times> state) option" where
  "main_loop_body n = (\<lambda>(heartbeat_counter, s).
     (let heartbeat_counter = heartbeat_counter + 1 in
      if heartbeat_counter \<ge> 1000 then
        do {
          s1 \<leftarrow> uart_send_char n CMD_HEARTBEAT s;
          s2 \<leftarrow> uart_send_char n NEWLINE s1;
          Some (0, s2)
        }
      else Some (heartbeat_counter, s)))"

text \<open>The first \<open>k\<close> iterations of the loop.\<close>

fun main_loop :: "nat \<Rightarrow> nat \<Rightarrow> 16 word \<times> state \<Rightarrow> (16 word \<times> state) option" where
  "main_loop n 0 x = Some x"
| "main_loop n (Suc k) x =
     (case main_loop_body n x of None \<Rightarrow> None | Some x' \<Rightarrow> main_loop n k x')"

section \<open>Interleavings of enqueue calls and completion callbacks\<close>

text \<open>
  An interleaving is a sequence of events, each run to its end before the next: an
  enqueue call of some producer, or a drain event. An enqueue that finds the queue
  full does not return before a drain event, so in a sequence it stands after that
  event; \<open>fire\<close> gives \<open>None\<close> for an event that cannot happen in the state.
\<close>

datatype event = Enqueue char | TxComplete

fun fire :: "event \<Rightarrow> state \<Rightarrow> state option" where
  "fire (Enqueue c) s = uart_send_char 0 c s"
| "fire TxComplete s = tx_complete s"

fun run :: "event list \<Rightarrow> state \<Rightarrow> state option" where
  "run [] s = Some s"
| "run (e # es) s = (case fire e s of None \<Rightarrow> None | Some s' \<Rightarrow> run es s')"

text \<open>The bytes of the enqueue calls of a sequence, in call order.\<close>

fun enqueued :: "event list \<Rightarrow> char list" where
  "enqueued [] = []"
| "enqueued (Enqueue c # es) = c # enqueued es"
| "enqueued (TxComplete # es) = enqueued es"

section \<open>An enqueue of the main context, interrupted\<close>

text \<open>
  \<open>main\<close> calls \<open>uart_send_char\<close> after \<open>sei()\<close>, with interrupts enabled, so a handler
  can be served between two statements of the call. This is \<open>uart_send_char\<close> with the
  handler \<open>isr\<close> served right after line 61, when \<open>next_head\<close> has been computed from
  the head index: the handler runs to its end, then the call goes on with the wait,
  the write at the head index as it is now (the index is volatile and read again),
  the assignment of the \<open>next_head\<close> computed before, and the kick-off.
\<close>

definition uart_send_char_interrupted ::
  "(state \<Rightarrow> state option) \<Rightarrow> nat \<Rightarrow> char \<Rightarrow> state \<Rightarrow> state option" where
  "uart_send_char_interrupted isr n data s =
     (let next_head = advance (uart_tx_head s) in
      case isr s of
        None \<Rightarrow> None
      | Some s0 \<Rightarrow>
          (case wait_while_full n next_head s0 of
             None \<Rightarrow> None
           | Some s1 \<Rightarrow>
               Some (uart_start_if_idle
                       (s1\<lparr> uart_tx_buffer := (uart_tx_buffer s1)[unat (uart_tx_head s1) := data],
                            uart_tx_head := next_head \<rparr>))))"

section \<open>Reading the queue\<close>

text \<open>
  The indices stay below the capacity and the buffer keeps its 32 slots; outside of
  that an index would leave the array, which C leaves undefined.
\<close>

definition uart_ok :: "state \<Rightarrow> bool" where
  "uart_ok s \<longleftrightarrow> length (uart_tx_buffer s) = UART_BUFFER_SIZE
                \<and> unat (uart_tx_head s) < UART_BUFFER_SIZE
                \<and> unat (uart_tx_tail s) < UART_BUFFER_SIZE"

text \<open>The number of bytes waiting in the buffer, and these bytes from tail to head.\<close>

definition ring_dist :: "nat \<Rightarrow> nat \<Rightarrow> nat" where
  "ring_dist h t = (if t \<le> h then h - t else h + UART_BUFFER_SIZE - t)"

definition qlen :: "state \<Rightarrow> nat" where
  "qlen s = ring_dist (unat (uart_tx_head s)) (unat (uart_tx_tail s))"

definition queued :: "state \<Rightarrow> char list" where
  "queued s = map (\<lambda>i. uart_tx_buffer s ! ((unat (uart_tx_tail s) + i) mod UART_BUFFER_SIZE))
                  [0 ..< qlen s]"

text \<open>The slots an enqueue can still fill without waiting.\<close>

definition uart_free :: "state \<Rightarrow> nat" where
  "uart_free s = UART_BUFFER_SIZE - 1 - qlen s"

text \<open>
  Every byte the transmitter holds or has passed on: those handed to the channel,
  then those waiting in the buffer.
\<close>

definition accepted :: "state \<Rightarrow> char list" where
  "accepted s = UDR0 s @ queued s"

text \<open>
  The states between two events: the flag mirrors the channel, and an idle
  transmitter has nothing waiting.
\<close>

definition uart_inv :: "state \<Rightarrow> bool" where
  "uart_inv s \<longleftrightarrow> uart_ok s \<and> tx_busy s = uart_transmitting s
                 \<and> (\<not> uart_transmitting s \<longrightarrow> uart_tx_head s = uart_tx_tail s)"

text \<open>
  A falling edge of bit \<open>p\<close>, in the words of the specification: the bit is set in
  \<open>current XOR previous\<close> and clear in \<open>current\<close>.
\<close>

definition falling :: "nat \<Rightarrow> 8 word \<Rightarrow> 8 word \<Rightarrow> bool" where
  "falling p current previous \<longleftrightarrow> bit (current XOR previous) p \<and> \<not> bit current p"

text \<open>The two bytes of one event on the wire, when the event happens.\<close>

definition pair_if :: "bool \<Rightarrow> char \<Rightarrow> char list" where
  "pair_if b c = (if b then [c, NEWLINE] else [])"

text \<open>
  The block \<open>if (edge) { uart_send_char(c); uart_send_char('\n'); }\<close> that every
  handler repeats per pin.
\<close>

definition send_pair_if :: "bool \<Rightarrow> char \<Rightarrow> state \<Rightarrow> state option" where
  "send_pair_if b c s =
     (if b then do { s' \<leftarrow> uart_send_char 0 c s; uart_send_char 0 NEWLINE s' } else Some s)"

section \<open>Index arithmetic of the ring\<close>

lemma unat_advance: "unat (advance i) = Suc (unat i) mod 32"
  by (simp add: advance_def UART_BUFFER_SIZE_def unat_of_nat take_bit_nat_eq_self)

lemma suc_mod: "t < (32::nat) \<Longrightarrow> Suc t mod 32 = (if t = 31 then 0 else Suc t)"
  by (simp add: mod_Suc)

lemma advance_neq: "advance i \<noteq> i"
proof
  assume "advance i = i"
  then have "unat (advance i) = unat i" by simp
  then have eq: "Suc (unat i) mod 32 = unat i" by (simp add: unat_advance)
  have "Suc (unat i) mod 32 < 32" by (rule mod_less_divisor) simp
  with eq have "unat i < 32" by simp
  with eq show False by (simp add: suc_mod split: if_splits)
qed

lemma dist_push:
  assumes "h < 32" "t < 32" "Suc h mod 32 \<noteq> t"
  shows "ring_dist (Suc h mod 32) t = Suc (ring_dist h t)"
  using assms by (auto simp add: ring_dist_def UART_BUFFER_SIZE_def suc_mod split: if_splits)

lemma dist_pop:
  assumes "h < 32" "t < 32" "h \<noteq> t"
  shows "ring_dist h t = Suc (ring_dist h (Suc t mod 32))"
  using assms by (auto simp add: ring_dist_def UART_BUFFER_SIZE_def suc_mod split: if_splits)

lemma ring_last:
  assumes "h < 32" "t < 32"
  shows "(t + ring_dist h t) mod 32 = h"
  using assms by (auto simp add: ring_dist_def UART_BUFFER_SIZE_def)

lemma ring_other:
  assumes "h < 32" "t < 32" "i < ring_dist h t"
  shows "(t + i) mod 32 \<noteq> h"
proof (cases "t + i < 32")
  case True
  with assms show ?thesis
    by (auto simp add: ring_dist_def UART_BUFFER_SIZE_def split: if_splits)
next
  case False
  then have ge: "32 \<le> t + i" by simp
  from assms have lt: "t + i - 32 < 32"
    by (simp add: ring_dist_def UART_BUFFER_SIZE_def split: if_splits)
  have "(t + i) mod 32 = t + i - 32"
    using le_mod_geq [OF ge] lt by simp
  with assms ge show ?thesis
    by (simp add: ring_dist_def UART_BUFFER_SIZE_def split: if_splits)
qed

lemma ring_shift: "(Suc t mod 32 + i) mod 32 = Suc (t + i) mod (32::nat)"
  using mod_add_left_eq [of "Suc t" 32 i] by simp

section \<open>Writing and reading a slot\<close>

lemma queued_push:
  assumes ok: "uart_ok s" and nf: "advance (uart_tx_head s) \<noteq> uart_tx_tail s"
  shows "queued (s\<lparr> uart_tx_buffer := (uart_tx_buffer s)[unat (uart_tx_head s) := c],
                    uart_tx_head := advance (uart_tx_head s) \<rparr>) = queued s @ [c]"
proof -
  let ?h = "unat (uart_tx_head s)" and ?t = "unat (uart_tx_tail s)"
  let ?n = "ring_dist ?h ?t"
  from ok have h: "?h < 32" and t: "?t < 32" and len: "length (uart_tx_buffer s) = 32"
    by (simp_all add: uart_ok_def UART_BUFFER_SIZE_def)
  from nf have "unat (advance (uart_tx_head s)) \<noteq> ?t"
    by (simp add: word_unat_eq_iff)
  then have nf': "Suc ?h mod 32 \<noteq> ?t" by (simp add: unat_advance)
  have n: "ring_dist (Suc ?h mod 32) ?t = Suc ?n"
    using h t nf' by (rule dist_push)
  have old: "(uart_tx_buffer s)[?h := c] ! ((?t + i) mod 32) = uart_tx_buffer s ! ((?t + i) mod 32)"
    if "i < ?n" for i
    using ring_other [OF h t that] by simp
  have new: "(uart_tx_buffer s)[?h := c] ! ((?t + ?n) mod 32) = c"
    using ring_last [OF h t] h len by simp
  show ?thesis
    by (simp add: queued_def qlen_def UART_BUFFER_SIZE_def unat_advance n old new)
qed

lemma queued_pop:
  assumes ok: "uart_ok s" and ne: "uart_tx_head s \<noteq> uart_tx_tail s"
  shows "queued s = uart_tx_buffer s ! unat (uart_tx_tail s)
                    # queued (s\<lparr> uart_tx_tail := advance (uart_tx_tail s) \<rparr>)"
proof -
  let ?h = "unat (uart_tx_head s)" and ?t = "unat (uart_tx_tail s)"
  from ok have h: "?h < 32" and t: "?t < 32"
    by (simp_all add: uart_ok_def UART_BUFFER_SIZE_def)
  from ne have ne': "?h \<noteq> ?t" by (simp add: word_unat_eq_iff)
  have n: "ring_dist ?h ?t = Suc (ring_dist ?h (Suc ?t mod 32))"
    using h t ne' by (rule dist_pop)
  show ?thesis
    using t by (simp add: queued_def qlen_def UART_BUFFER_SIZE_def unat_advance n
                  map_upt_Suc ring_shift del: upt_Suc)
qed


lemma qlen_zero_iff: "uart_ok s \<Longrightarrow> qlen s = 0 \<longleftrightarrow> uart_tx_head s = uart_tx_tail s"
  by (auto simp add: qlen_def ring_dist_def uart_ok_def UART_BUFFER_SIZE_def word_unat_eq_iff)

lemma qlen_less: "uart_ok s \<Longrightarrow> qlen s < 32"
  by (auto simp add: qlen_def ring_dist_def uart_ok_def UART_BUFFER_SIZE_def)

lemma full_iff: 
  assumes "uart_ok s"
  shows "advance (uart_tx_head s) = uart_tx_tail s \<longleftrightarrow> qlen s = 31"
proof -
  let ?h = "unat (uart_tx_head s)" and ?t = "unat (uart_tx_tail s)"
  from assms have h: "?h < 32" and t: "?t < 32"
    by (simp_all add: uart_ok_def UART_BUFFER_SIZE_def)
  have "advance (uart_tx_head s) = uart_tx_tail s \<longleftrightarrow> Suc ?h mod 32 = ?t"
    by (simp add: word_unat_eq_iff unat_advance)
  also have "\<dots> \<longleftrightarrow> ring_dist ?h ?t = 31"
    using h t by (auto simp add: suc_mod ring_dist_def UART_BUFFER_SIZE_def split: if_splits)
  finally show ?thesis by (simp add: qlen_def)
qed

lemma queued_nil: "qlen s = 0 \<Longrightarrow> queued s = []"
  by (simp add: queued_def)

lemma length_queued: "length (queued s) = qlen s"
  by (simp add: queued_def)

lemma push_ok:
  "uart_ok s \<Longrightarrow>
   uart_ok (s\<lparr> uart_tx_buffer := (uart_tx_buffer s)[unat (uart_tx_head s) := c],
               uart_tx_head := advance (uart_tx_head s) \<rparr>)"
  by (simp add: uart_ok_def unat_advance UART_BUFFER_SIZE_def)

lemma push_qlen:
  assumes ok: "uart_ok s" and nf: "advance (uart_tx_head s) \<noteq> uart_tx_tail s"
  shows "qlen (s\<lparr> uart_tx_buffer := (uart_tx_buffer s)[unat (uart_tx_head s) := c],
                  uart_tx_head := advance (uart_tx_head s) \<rparr>) = Suc (qlen s)"
  using length_queued [of "s\<lparr> uart_tx_buffer := (uart_tx_buffer s)[unat (uart_tx_head s) := c],
                  uart_tx_head := advance (uart_tx_head s) \<rparr>"] queued_push [OF ok nf, of c]
  by (simp add: length_queued)

lemma pop_qlen:
  assumes ok: "uart_ok s" and ne: "uart_tx_head s \<noteq> uart_tx_tail s"
  shows "qlen s = Suc (qlen (s\<lparr> uart_tx_tail := advance (uart_tx_tail s) \<rparr>))"
  using arg_cong [OF queued_pop [OF ok ne], of length] by (simp add: length_queued)

section \<open>What the transmitter operations keep\<close>

lemma start_accepted: "uart_ok s \<Longrightarrow> accepted (uart_start_if_idle s) = accepted s"
proof -
  assume ok: "uart_ok s"
  show ?thesis
  proof (cases "\<not> uart_transmitting s \<and> uart_tx_head s \<noteq> uart_tx_tail s")
    case True
    then have ne: "uart_tx_head s \<noteq> uart_tx_tail s" by simp
    have q: "queued (s\<lparr> uart_transmitting := True, UDR0 := u, tx_busy := True,
                  uart_tx_tail := advance (uart_tx_tail s) \<rparr>)
           = queued (s\<lparr> uart_tx_tail := advance (uart_tx_tail s) \<rparr>)" for u
      by (simp add: queued_def qlen_def)
    show ?thesis using True queued_pop [OF ok ne]
      by (simp add: uart_start_if_idle_def write_UDR0_def accepted_def Let_def q)
  next
    case False
    then show ?thesis by (auto simp add: uart_start_if_idle_def)
  qed
qed


lemma start_ok: "uart_ok s \<Longrightarrow> uart_ok (uart_start_if_idle s)"
  by (simp add: uart_start_if_idle_def write_UDR0_def uart_ok_def Let_def unat_advance
        UART_BUFFER_SIZE_def)

lemma start_qlen:
  assumes ok: "uart_ok s"
  shows "qlen s = (if \<not> uart_transmitting s \<and> uart_tx_head s \<noteq> uart_tx_tail s
                   then Suc (qlen (uart_start_if_idle s)) else qlen (uart_start_if_idle s))"
proof (cases "\<not> uart_transmitting s \<and> uart_tx_head s \<noteq> uart_tx_tail s")
  case True
  then have ne: "uart_tx_head s \<noteq> uart_tx_tail s" by simp
  have q: "qlen (s\<lparr> uart_transmitting := True, UDR0 := u, tx_busy := True,
                uart_tx_tail := advance (uart_tx_tail s) \<rparr>)
         = qlen (s\<lparr> uart_tx_tail := advance (uart_tx_tail s) \<rparr>)" for u
    by (simp add: qlen_def)
  show ?thesis using True pop_qlen [OF ok ne]
    by (simp add: uart_start_if_idle_def write_UDR0_def Let_def q)
next
  case False
  then show ?thesis by (auto simp add: uart_start_if_idle_def)
qed

lemma isr_accepted: "uart_ok s \<Longrightarrow> accepted (USART_TX_vect s) = accepted s"
proof -
  assume ok: "uart_ok s"
  show ?thesis
  proof (cases "uart_tx_head s \<noteq> uart_tx_tail s")
    case True
    have q: "queued (s\<lparr> UDR0 := u, tx_busy := True,
                  uart_tx_tail := advance (uart_tx_tail s) \<rparr>)
           = queued (s\<lparr> uart_tx_tail := advance (uart_tx_tail s) \<rparr>)" for u
      by (simp add: queued_def qlen_def)
    show ?thesis using True queued_pop [OF ok True]
      by (simp add: USART_TX_vect_def write_UDR0_def accepted_def Let_def q)
  next
    case False
    then show ?thesis by (simp add: USART_TX_vect_def accepted_def queued_def qlen_def)
  qed
qed

lemma isr_ok: "uart_ok s \<Longrightarrow> uart_ok (USART_TX_vect s)"
  by (simp add: USART_TX_vect_def write_UDR0_def uart_ok_def Let_def unat_advance
        UART_BUFFER_SIZE_def)

lemma isr_head: "uart_tx_head (USART_TX_vect s) = uart_tx_head s"
  by (simp add: USART_TX_vect_def write_UDR0_def Let_def)

lemma tx_complete_keeps:
  assumes "uart_ok s" and "tx_complete s = Some s'"
  shows "accepted s' = accepted s" and "uart_ok s'" and "uart_tx_head s' = uart_tx_head s"
proof -
  let ?s = "s\<lparr> tx_busy := False \<rparr>"
  from assms(2) have s': "s' = USART_TX_vect ?s"
    by (simp add: tx_complete_def split: if_splits)
  from assms(1) have ok: "uart_ok ?s" by (simp add: uart_ok_def)
  have "accepted ?s = accepted s" by (simp add: accepted_def queued_def qlen_def)
  with isr_accepted [OF ok] show "accepted s' = accepted s" by (simp add: s')
  from isr_ok [OF ok] show "uart_ok s'" by (simp add: s')
  show "uart_tx_head s' = uart_tx_head s" by (simp add: s' isr_head)
qed

lemma wait_keeps:
  assumes "uart_ok s" and "wait_while_full n next_head s = Some s1"
  shows "accepted s1 = accepted s \<and> uart_ok s1 \<and> uart_tx_head s1 = uart_tx_head s
         \<and> next_head \<noteq> uart_tx_tail s1"
  using assms
proof (induction n arbitrary: s)
  case 0
  then show ?case by (simp split: if_splits)
next
  case (Suc n)
  show ?case
  proof (cases "next_head = uart_tx_tail s")
    case False
    with Suc.prems show ?thesis by simp
  next
    case True
    with Suc.prems obtain s' where c: "tx_complete s = Some s'"
      and w: "wait_while_full n next_head s' = Some s1"
      by (auto split: option.splits)
    from tx_complete_keeps [OF Suc.prems(1) c] Suc.IH [OF _ w]
    show ?thesis by simp
  qed
qed

lemma send_char_keeps:
  assumes ok: "uart_ok s" and r: "uart_send_char n c s = Some s'"
  shows "accepted s' = accepted s @ [c] \<and> uart_ok s'"
proof -
  from r obtain s1 where w: "wait_while_full n (advance (uart_tx_head s)) s = Some s1"
    and s': "s' = uart_start_if_idle
                  (s1\<lparr> uart_tx_buffer := (uart_tx_buffer s1)[unat (uart_tx_head s1) := c],
                       uart_tx_head := advance (uart_tx_head s) \<rparr>)"
    by (auto simp add: uart_send_char_def Let_def split: option.splits)
  from wait_keeps [OF ok w] have a: "accepted s1 = accepted s" and ok1: "uart_ok s1"
    and h: "uart_tx_head s1 = uart_tx_head s" and nf: "advance (uart_tx_head s1) \<noteq> uart_tx_tail s1"
    by simp_all
  let ?p = "s1\<lparr> uart_tx_buffer := (uart_tx_buffer s1)[unat (uart_tx_head s1) := c],
                uart_tx_head := advance (uart_tx_head s1) \<rparr>"
  have "accepted ?p = accepted s1 @ [c]"
    using queued_push [OF ok1 nf, of c] by (simp add: accepted_def)
  moreover have "uart_ok ?p" by (rule push_ok [OF ok1])
  ultimately show ?thesis
    using start_accepted [of ?p] start_ok [of ?p] a by (simp add: s' h)
qed

lemma send_char_blocks: "uart_send_char 0 c s = None \<longleftrightarrow> advance (uart_tx_head s) = uart_tx_tail s"
  by (simp add: uart_send_char_def Let_def split: option.splits)

lemma send_char_now:
  "advance (uart_tx_head s) \<noteq> uart_tx_tail s \<Longrightarrow>
   uart_send_char n c s =
     Some (uart_start_if_idle
             (s\<lparr> uart_tx_buffer := (uart_tx_buffer s)[unat (uart_tx_head s) := c],
                  uart_tx_head := advance (uart_tx_head s) \<rparr>))"
  by (cases n) (simp_all add: uart_send_char_def Let_def)


section \<open>The invariant between events\<close>

lemma isr_inv:
  assumes "uart_ok s" and "uart_transmitting s"
  shows "uart_inv (USART_TX_vect (s\<lparr> tx_busy := False \<rparr>))"
proof -
  let ?s = "s\<lparr> tx_busy := False \<rparr>"
  from assms(1) have "uart_ok ?s" by (simp add: uart_ok_def)
  then have "uart_ok (USART_TX_vect ?s)" by (rule isr_ok)
  then show ?thesis using assms(2)
    by (simp add: uart_inv_def) (simp add: USART_TX_vect_def write_UDR0_def Let_def)
qed

lemma tx_complete_inv:
  assumes "uart_inv s" and "tx_complete s = Some s'"
  shows "uart_inv s'"
proof -
  from assms(2) have b: "tx_busy s" and s': "s' = USART_TX_vect (s\<lparr> tx_busy := False \<rparr>)"
    by (simp_all add: tx_complete_def split: if_splits)
  from assms(1) b have "uart_ok s" "uart_transmitting s" by (simp_all add: uart_inv_def)
  then show ?thesis unfolding s' by (rule isr_inv)
qed

lemma tx_complete_qlen:
  assumes ok: "uart_ok s" and c: "tx_complete s = Some s'"
    and ne: "uart_tx_head s \<noteq> uart_tx_tail s"
  shows "qlen s = Suc (qlen s')"
proof -
  from c have s': "s' = USART_TX_vect (s\<lparr> tx_busy := False \<rparr>)"
    by (simp add: tx_complete_def split: if_splits)
  have "qlen s' = qlen (s\<lparr> uart_tx_tail := advance (uart_tx_tail s) \<rparr>)"
    using ne by (simp add: s' USART_TX_vect_def write_UDR0_def Let_def qlen_def)
  with pop_qlen [OF ok ne] show ?thesis by simp
qed

lemma wait_inv:
  assumes "uart_inv s" and "wait_while_full n next_head s = Some s1"
  shows "uart_inv s1"
  using assms
proof (induction n arbitrary: s)
  case 0
  then show ?case by (simp split: if_splits)
next
  case (Suc n)
  show ?case
  proof (cases "next_head = uart_tx_tail s")
    case False
    with Suc.prems show ?thesis by simp
  next
    case True
    with Suc.prems obtain s' where c: "tx_complete s = Some s'"
      and w: "wait_while_full n next_head s' = Some s1"
      by (auto split: option.splits)
    from tx_complete_inv [OF Suc.prems(1) c] w show ?thesis by (rule Suc.IH)
  qed
qed

lemma send_char_inv:
  assumes inv: "uart_inv s" and r: "uart_send_char n c s = Some s'"
  shows "uart_inv s'"
proof -
  from inv have ok: "uart_ok s" by (simp add: uart_inv_def)
  from r obtain s1 where w: "wait_while_full n (advance (uart_tx_head s)) s = Some s1"
    and s': "s' = uart_start_if_idle
                  (s1\<lparr> uart_tx_buffer := (uart_tx_buffer s1)[unat (uart_tx_head s1) := c],
                       uart_tx_head := advance (uart_tx_head s) \<rparr>)"
    by (auto simp add: uart_send_char_def Let_def split: option.splits)
  from wait_inv [OF inv w] have inv1: "uart_inv s1" .
  from wait_keeps [OF ok w] have h: "uart_tx_head s1 = uart_tx_head s"
    and nf: "advance (uart_tx_head s) \<noteq> uart_tx_tail s1" by simp_all
  from send_char_keeps [OF ok r] have ok': "uart_ok s'" by simp
  have idle: "advance (uart_tx_head s) \<noteq> uart_tx_tail s1" by (rule nf)
  show ?thesis
    using inv1 ok' idle
    by (simp add: uart_inv_def) (auto simp add: s' uart_start_if_idle_def write_UDR0_def Let_def)
qed

lemma fire_keeps:
  assumes "uart_inv s" and "fire e s = Some s'"
  shows "uart_inv s'" and "accepted s' = accepted s @ enqueued [e]"
proof -
  from assms(1) have ok: "uart_ok s" by (simp add: uart_inv_def)
  show "uart_inv s'"
    using assms by (cases e) (auto intro: send_char_inv tx_complete_inv)
  show "accepted s' = accepted s @ enqueued [e]"
    using assms(2) send_char_keeps [OF ok] tx_complete_keeps(1) [OF ok]
    by (cases e) auto
qed

lemma enqueued_Cons: "enqueued (e # es) = enqueued [e] @ enqueued es"
  by (cases e) simp_all

lemma run_keeps:
  assumes "uart_inv s0" and "run evs s0 = Some s"
  shows "uart_inv s \<and> accepted s = accepted s0 @ enqueued evs"
  using assms
proof (induction evs arbitrary: s0)
  case Nil
  then show ?case by simp
next
  case (Cons e es)
  from Cons.prems(2) obtain s1 where f: "fire e s0 = Some s1" and r: "run es s1 = Some s"
    by (auto split: option.splits)
  from fire_keeps [OF Cons.prems(1) f] Cons.IH [OF _ r]
  show ?case by (simp add: enqueued_Cons [of e es])
qed

lemma initial_inv: "uart_inv initial"
  by (simp add: uart_inv_def uart_ok_def initial_def UART_BUFFER_SIZE_def)

lemma initial_accepted: "accepted initial = []"
  by (simp add: accepted_def queued_def qlen_def ring_dist_def initial_def)

lemma drain_all:
  assumes "uart_inv s" and "qlen s = n"
  shows "\<exists>s'. run (replicate n TxComplete) s = Some s' \<and> UDR0 s' = accepted s
              \<and> uart_tx_head s' = uart_tx_tail s' \<and> uart_inv s'"
  using assms
proof (induction n arbitrary: s)
  case 0
  then have ok: "uart_ok s" by (simp add: uart_inv_def)
  with 0 show ?case by (simp add: accepted_def queued_nil qlen_zero_iff)
next
  case (Suc n)
  then have ok: "uart_ok s" by (simp add: uart_inv_def)
  from Suc.prems qlen_zero_iff [OF ok] have ne: "uart_tx_head s \<noteq> uart_tx_tail s" by auto
  with Suc.prems(1) have "tx_busy s" by (auto simp add: uart_inv_def)
  then obtain s1 where c: "tx_complete s = Some s1" by (simp add: tx_complete_def)
  from tx_complete_qlen [OF ok c ne] Suc.prems(2) have n: "qlen s1 = n" by simp
  from Suc.IH [OF tx_complete_inv [OF Suc.prems(1) c] n] tx_complete_keeps(1) [OF ok c] c
  show ?case by simp
qed


section \<open>First in, first out\<close>

lemma empty_iff:
  assumes "uart_inv s" and "accepted s = L"
  shows "(UDR0 s = L \<and> \<not> tx_busy s) \<longleftrightarrow> (uart_tx_head s = uart_tx_tail s \<and> \<not> uart_transmitting s)"
proof -
  from assms(1) have ok: "uart_ok s" and b: "tx_busy s = uart_transmitting s"
    by (simp_all add: uart_inv_def)
  have "UDR0 s = L \<longleftrightarrow> queued s = []" using assms(2) by (auto simp add: accepted_def)
  also have "\<dots> \<longleftrightarrow> qlen s = 0" using length_queued [of s] by auto
  also have "\<dots> \<longleftrightarrow> uart_tx_head s = uart_tx_tail s" by (rule qlen_zero_iff [OF ok])
  finally show ?thesis using b by simp
qed

text \<open>
  Whole calls in sequence. Take any sequence of enqueue calls and drain events from
  the state at reset, each run to its end before the next. The bytes handed to the
  channel, followed by the bytes still waiting in the buffer from tail to head, are
  exactly the bytes of the enqueue calls in call order: nothing is reordered,
  duplicated or lost. Letting the channel drain what is waiting hands over the rest.
\<close>

theorem fifo_order:
  assumes "run evs initial = Some s"
  shows "UDR0 s @ queued s = enqueued evs
         \<and> (\<exists>s'. run (replicate (qlen s) TxComplete) s = Some s' \<and> UDR0 s' = enqueued evs)"
proof -
  from run_keeps [OF initial_inv assms] have inv: "uart_inv s"
    and a: "accepted s = enqueued evs" by (simp_all add: initial_accepted)
  from drain_all [OF inv refl] a show ?thesis by (auto simp add: accepted_def)
qed

text \<open>The definitions a concrete run unfolds.\<close>

lemmas model_defs = uart_send_char_def uart_start_if_idle_def USART_TX_vect_def
  tx_complete_def write_UDR0_def advance_def UART_BUFFER_SIZE_def initial_def Let_def

theorem fifo_order_witness:
  "run [Enqueue (CHR ''U''), Enqueue (CHR ''D''), TxComplete, Enqueue (CHR ''L'')] initial \<noteq> None
   \<and> UDR0 (the (run [Enqueue (CHR ''U''), Enqueue (CHR ''D''), TxComplete, Enqueue (CHR ''L'')] initial))
       = ''UD''
   \<and> queued (the (run [Enqueue (CHR ''U''), Enqueue (CHR ''D''), TxComplete, Enqueue (CHR ''L'')] initial))
       = ''L''"
proof -
  let ?E = "[Enqueue (CHR ''U''), Enqueue (CHR ''D''), TxComplete, Enqueue (CHR ''L'')]"
  have u: "UDR0 (the (run ?E initial)) = ''UD''" and r: "run ?E initial \<noteq> None"
    by (simp_all add: model_defs)
  then obtain s where s: "run ?E initial = Some s" by auto
  from fifo_order [OF s] u r s show ?thesis by simp
qed

text \<open>The definitions the interrupted enqueue unfolds, and two small intervals.\<close>

lemmas race_defs = model_defs uart_send_char_interrupted_def PCINT0_vect_def
  BTN_DOWN_def BTN_RIGHT_def PB3_def PB4_def CMD_DOWN_def CMD_RIGHT_def NEWLINE_def
  accepted_def queued_def qlen_def ring_dist_def

lemma upt_small: "[0..<1] = [0]" "[0..<2] = [0, 1]"
  by (simp_all add: numeral_2_eq_2)

text \<open>
  Claim C2 does not hold of the code when enqueue calls of different contexts
  overlap. After reset, with both buttons of group B idle, \<open>main\<close> enqueues \<open>'S'\<close>, which
  goes to the channel at once. \<open>main\<close> then enqueues \<open>'H'\<close>; right after it has computed
  \<open>next_head\<close> (line 61) the DOWN button falls and the group B handler is served,
  which enqueues \<open>'D'\<close> and newline: on its own the handler leaves \<open>'S'\<close>, \<open>'D'\<close>, newline
  accepted. Back in \<open>main\<close>, the call writes \<open>'H'\<close> behind them and then assigns the
  \<open>next_head\<close> it computed before, which moves head back. All four enqueue calls have
  returned, yet only \<open>'S'\<close> and \<open>'D'\<close> are held; two drain events later the transmitter
  is idle with an empty queue, and the channel has received \<open>'S'\<close>, \<open>'D'\<close> and nothing
  else: the newline and \<open>'H'\<close> are lost.
\<close>

theorem interrupted_enqueue_loses_bytes:
  "uart_send_char 0 (CHR ''S'') (initial\<lparr> last_portb := 0x18 \<rparr>) \<noteq> None
   \<and> PCINT0_vect 0x10 (the (uart_send_char 0 (CHR ''S'') (initial\<lparr> last_portb := 0x18 \<rparr>)))
       \<noteq> None
   \<and> accepted (the (PCINT0_vect 0x10
         (the (uart_send_char 0 (CHR ''S'') (initial\<lparr> last_portb := 0x18 \<rparr>)))))
       = [CHR ''S'', CHR ''D'', CHR 0x0A]
   \<and> uart_send_char_interrupted (PCINT0_vect 0x10) 0 (CHR ''H'')
         (the (uart_send_char 0 (CHR ''S'') (initial\<lparr> last_portb := 0x18 \<rparr>))) \<noteq> None
   \<and> accepted (the (uart_send_char_interrupted (PCINT0_vect 0x10) 0 (CHR ''H'')
         (the (uart_send_char 0 (CHR ''S'') (initial\<lparr> last_portb := 0x18 \<rparr>)))))
       = [CHR ''S'', CHR ''D'']
   \<and> run [TxComplete, TxComplete]
         (the (uart_send_char_interrupted (PCINT0_vect 0x10) 0 (CHR ''H'')
            (the (uart_send_char 0 (CHR ''S'') (initial\<lparr> last_portb := 0x18 \<rparr>))))) \<noteq> None
   \<and> UDR0 (the (run [TxComplete, TxComplete]
         (the (uart_send_char_interrupted (PCINT0_vect 0x10) 0 (CHR ''H'')
            (the (uart_send_char 0 (CHR ''S'') (initial\<lparr> last_portb := 0x18 \<rparr>)))))))
       = [CHR ''S'', CHR ''D'']
   \<and> \<not> uart_transmitting (the (run [TxComplete, TxComplete]
         (the (uart_send_char_interrupted (PCINT0_vect 0x10) 0 (CHR ''H'')
            (the (uart_send_char 0 (CHR ''S'') (initial\<lparr> last_portb := 0x18 \<rparr>)))))))
   \<and> queued (the (run [TxComplete, TxComplete]
         (the (uart_send_char_interrupted (PCINT0_vect 0x10) 0 (CHR ''H'')
            (the (uart_send_char 0 (CHR ''S'') (initial\<lparr> last_portb := 0x18 \<rparr>)))))))
       = []"
proof -
  define S1 where "S1 = the (uart_send_char 0 (CHR ''S'') (initial\<lparr> last_portb := 0x18 \<rparr>))"
  have s1: "uart_send_char 0 (CHR ''S'') (initial\<lparr> last_portb := 0x18 \<rparr>) = Some S1"
    and S1: "S1 = initial\<lparr> uart_tx_buffer := (replicate 32 (CHR 0x00))[0 := CHR ''S''],
                   uart_tx_head := 1, uart_tx_tail := 1, uart_transmitting := True,
                   last_portb := 0x18, UDR0 := [CHR ''S''], tx_busy := True \<rparr>"
    by (simp_all add: S1_def model_defs)
  define P where "P = the (PCINT0_vect 0x10 S1)"
  have p: "PCINT0_vect 0x10 S1 = Some P" and pa: "accepted P = [CHR ''S'', CHR ''D'', CHR 0x0A]"
    by (simp_all add: P_def S1 race_defs upt_small numeral_2_eq_2 [symmetric])
  define S2 where "S2 = the (uart_send_char_interrupted (PCINT0_vect 0x10) 0 (CHR ''H'') S1)"
  have s2: "uart_send_char_interrupted (PCINT0_vect 0x10) 0 (CHR ''H'') S1 = Some S2"
    and a2: "accepted S2 = [CHR ''S'', CHR ''D'']"
    by (simp_all add: S2_def S1 race_defs upt_small)
  define S3 where "S3 = the (run [TxComplete, TxComplete] S2)"
  have s3: "run [TxComplete, TxComplete] S2 = Some S3"
    and u3: "UDR0 S3 = [CHR ''S'', CHR ''D'']" and t3: "\<not> uart_transmitting S3"
    and q3: "queued S3 = []"
    by (simp_all add: S3_def S2_def S1 race_defs upt_small)
  from s1 p pa s2 a2 s3 u3 t3 q3 show ?thesis
    unfolding S3_def [symmetric] S2_def [symmetric] P_def [symmetric] S1_def [symmetric]
    by simp
qed

text \<open>
  Claim C3. In every state reached from reset by enqueue calls and drain events, the
  queue is empty (every enqueued byte was handed to the channel, and the channel is no
  longer busy with one) if and only if head equals tail and the transmitting flag is
  false. The completion callback hands the byte at tail to the channel and advances
  tail modulo the capacity when head differs from tail, clears the flag when they are
  equal, and the equivalence holds again after it.
\<close>

theorem empty_iff_idle:
  assumes "run evs initial = Some s"
  shows "((UDR0 s = enqueued evs \<and> \<not> tx_busy s)
            \<longleftrightarrow> (uart_tx_head s = uart_tx_tail s \<and> \<not> uart_transmitting s))
       \<and> (uart_tx_head s \<noteq> uart_tx_tail s \<longrightarrow>
            USART_TX_vect s = s\<lparr> UDR0 := UDR0 s @ [uart_tx_buffer s ! unat (uart_tx_tail s)],
                                  tx_busy := True,
                                  uart_tx_tail := advance (uart_tx_tail s) \<rparr>
            \<and> unat (advance (uart_tx_tail s)) = (unat (uart_tx_tail s) + 1) mod UART_BUFFER_SIZE)
       \<and> (uart_tx_head s = uart_tx_tail s \<longrightarrow>
            USART_TX_vect s = s\<lparr> uart_transmitting := False \<rparr>)
       \<and> (\<forall>s'. tx_complete s = Some s' \<longrightarrow>
            ((UDR0 s' = enqueued evs \<and> \<not> tx_busy s')
               \<longleftrightarrow> (uart_tx_head s' = uart_tx_tail s' \<and> \<not> uart_transmitting s')))"
proof -
  from run_keeps [OF initial_inv assms] have inv: "uart_inv s"
    and a: "accepted s = enqueued evs" by (simp_all add: initial_accepted)
  from inv have ok: "uart_ok s" by (simp add: uart_inv_def)
  have 1: "(UDR0 s = enqueued evs \<and> \<not> tx_busy s)
            \<longleftrightarrow> (uart_tx_head s = uart_tx_tail s \<and> \<not> uart_transmitting s)"
    using inv a by (rule empty_iff)
  have 2: "uart_tx_head s \<noteq> uart_tx_tail s \<longrightarrow>
            USART_TX_vect s = s\<lparr> UDR0 := UDR0 s @ [uart_tx_buffer s ! unat (uart_tx_tail s)],
                                  tx_busy := True,
                                  uart_tx_tail := advance (uart_tx_tail s) \<rparr>
            \<and> unat (advance (uart_tx_tail s)) = (unat (uart_tx_tail s) + 1) mod UART_BUFFER_SIZE"
    by (simp add: USART_TX_vect_def write_UDR0_def Let_def unat_advance UART_BUFFER_SIZE_def)
  have 3: "uart_tx_head s = uart_tx_tail s \<longrightarrow>
            USART_TX_vect s = s\<lparr> uart_transmitting := False \<rparr>"
    by (simp add: USART_TX_vect_def)
  have 4: "(UDR0 s' = enqueued evs \<and> \<not> tx_busy s')
               \<longleftrightarrow> (uart_tx_head s' = uart_tx_tail s' \<and> \<not> uart_transmitting s')"
    if c: "tx_complete s = Some s'" for s'
    using tx_complete_inv [OF inv c] tx_complete_keeps(1) [OF ok c] a
    by (intro empty_iff) simp_all
  from 1 2 3 4 show ?thesis by blast
qed

theorem empty_iff_idle_witness:
  "run [Enqueue (CHR ''U''), TxComplete] initial \<noteq> None
   \<and> UDR0 (the (run [Enqueue (CHR ''U''), TxComplete] initial)) = ''U''
   \<and> \<not> uart_transmitting (the (run [Enqueue (CHR ''U''), TxComplete] initial))
   \<and> uart_tx_head (the (run [Enqueue (CHR ''U''), TxComplete] initial))
       = uart_tx_tail (the (run [Enqueue (CHR ''U''), TxComplete] initial))"
proof -
  let ?E = "[Enqueue (CHR ''U''), TxComplete]"
  define S where "S = the (run ?E initial)"
  have r: "run ?E initial = Some S" and u: "UDR0 S = enqueued ?E" and b: "\<not> tx_busy S"
    by (simp_all add: S_def model_defs)
  from empty_iff_idle [OF r] u b
  have c: "uart_tx_head S = uart_tx_tail S \<and> \<not> uart_transmitting S" by blast
  from r have n: "run ?E initial \<noteq> None" by (simp only: option.distinct not_False_eq_True)
  from u have u': "UDR0 S = ''U''" by simp
  from n u' c show ?thesis unfolding S_def [symmetric] by blast
qed

section \<open>Backpressure and the effect of an enqueue\<close>

lemma send_busy:
  assumes ok: "uart_ok s" and tr: "uart_transmitting s"
    and nf: "advance (uart_tx_head s) \<noteq> uart_tx_tail s"
  shows "\<exists>s'. uart_send_char n c s = Some s' \<and> qlen s' = Suc (qlen s)
              \<and> uart_transmitting s' \<and> uart_tx_tail s' = uart_tx_tail s
              \<and> UDR0 s' = UDR0 s"
  using push_qlen [OF ok nf, of c] tr
  by (simp add: send_char_now [OF nf] uart_start_if_idle_def)

lemma send_idle:
  assumes ok: "uart_ok s" and tr: "\<not> uart_transmitting s"
    and e: "uart_tx_head s = uart_tx_tail s"
  shows "\<exists>s'. uart_send_char n c s = Some s' \<and> qlen s' = 0
              \<and> uart_transmitting s' \<and> tx_busy s' \<and> uart_tx_head s' = uart_tx_tail s'
              \<and> UDR0 s' = UDR0 s @ [c]"
proof -
  from e have nf: "advance (uart_tx_head s) \<noteq> uart_tx_tail s" by (simp add: advance_neq)
  from ok have "unat (uart_tx_tail s) < length (uart_tx_buffer s)"
    by (simp add: uart_ok_def)
  then show ?thesis using tr e
    by (simp add: send_char_now [OF nf] uart_start_if_idle_def write_UDR0_def Let_def
          advance_neq qlen_def ring_dist_def)
qed

lemma send_unblocks:
  assumes inv: "uart_inv s"
  shows "uart_send_char (Suc n) c s \<noteq> None"
proof (cases "advance (uart_tx_head s) = uart_tx_tail s")
  case False
  then show ?thesis by (simp add: send_char_now)
next
  case True
  then have "uart_tx_head s \<noteq> uart_tx_tail s" using advance_neq [of "uart_tx_head s"] by auto
  with inv have b: "tx_busy s" by (auto simp add: uart_inv_def)
  let ?s1 = "USART_TX_vect (s\<lparr> tx_busy := False \<rparr>)"
  have c: "tx_complete s = Some ?s1" using b by (simp add: tx_complete_def)
  have t: "uart_tx_tail ?s1 = advance (uart_tx_tail s)"
    using \<open>uart_tx_head s \<noteq> uart_tx_tail s\<close>
    by (simp add: USART_TX_vect_def write_UDR0_def Let_def)
  have "wait_while_full n (uart_tx_tail s) ?s1 = Some ?s1"
    using advance_neq [of "uart_tx_tail s"] t by (cases n) auto
  then show ?thesis using True c
    by (simp add: uart_send_char_def Let_def)
qed

lemma send_string_append:
  "CHR 0x00 \<notin> set xs \<Longrightarrow>
   uart_send_string n (xs @ ys) s =
     (case uart_send_string n xs s of None \<Rightarrow> None | Some s' \<Rightarrow> uart_send_string n ys s')"
  by (induction xs arbitrary: s) (auto split: option.splits)

lemma send_string_keeps:
  assumes "uart_inv s" and "uart_send_string n cs s = Some s'"
  shows "uart_inv s'"
  using assms
proof (induction cs arbitrary: s)
  case Nil
  then show ?case by simp
next
  case (Cons c cs)
  show ?case
  proof (cases "c = CHR 0x00")
    case True
    with Cons.prems show ?thesis by simp
  next
    case False
    with Cons.prems obtain s1 where 1: "uart_send_char n c s = Some s1"
      and 2: "uart_send_string n cs s1 = Some s'"
      by (auto split: option.splits)
    from send_char_inv [OF Cons.prems(1) 1] 2 show ?thesis by (rule Cons.IH)
  qed
qed

lemma string_fits_busy:
  assumes "uart_ok s" and "uart_transmitting s" and "CHR 0x00 \<notin> set cs"
  shows "uart_send_string 0 cs s \<noteq> None \<longleftrightarrow> qlen s + length cs \<le> 31"
  using assms
proof (induction cs arbitrary: s)
  case Nil
  then show ?case using qlen_less [of s] by simp
next
  case (Cons c cs)
  then have c: "c \<noteq> CHR 0x00" and cs: "CHR 0x00 \<notin> set cs" by auto
  show ?case
  proof (cases "advance (uart_tx_head s) = uart_tx_tail s")
    case True
    then have "uart_send_char 0 c s = None" by (simp add: send_char_blocks)
    moreover from True full_iff [OF Cons.prems(1)] have "qlen s = 31" by simp
    ultimately show ?thesis using c by simp
  next
    case False
    from send_busy [OF Cons.prems(1,2) False, of 0 c]
    obtain s1 where 1: "uart_send_char 0 c s = Some s1" and q: "qlen s1 = Suc (qlen s)"
      and tr: "uart_transmitting s1" by blast
    from send_char_keeps [OF Cons.prems(1) 1] have ok1: "uart_ok s1" by simp
    from Cons.IH [OF ok1 tr cs] q 1 c show ?thesis by simp
  qed
qed

lemma string_fits:
  assumes inv: "uart_inv s" and e: "uart_tx_head s = uart_tx_tail s"
    and nul: "CHR 0x00 \<notin> set cs"
  shows "uart_send_string 0 cs s \<noteq> None
         \<longleftrightarrow> length cs \<le> (if uart_transmitting s then 31 else 32)"
proof -
  from inv have ok: "uart_ok s" by (simp add: uart_inv_def)
  from e qlen_zero_iff [OF ok] have q: "qlen s = 0" by simp
  show ?thesis
  proof (cases "uart_transmitting s")
    case True
    with string_fits_busy [OF ok True nul] q show ?thesis by simp
  next
    case False
    show ?thesis
    proof (cases cs)
      case Nil
      then show ?thesis by simp
    next
      case (Cons c cs')
      with nul have c: "c \<noteq> CHR 0x00" and cs': "CHR 0x00 \<notin> set cs'" by auto
      from send_idle [OF ok False e, of 0 c]
      obtain s1 where 1: "uart_send_char 0 c s = Some s1" and q1: "qlen s1 = 0"
        and tr: "uart_transmitting s1" by blast
      from send_char_keeps [OF ok 1] have ok1: "uart_ok s1" by simp
      from string_fits_busy [OF ok1 tr cs'] q1 1 c False Cons show ?thesis by simp
    qed
  qed
qed

lemma send_string_full:
  assumes inv: "uart_inv s" and e: "uart_tx_head s = uart_tx_tail s"
    and nul: "CHR 0x00 \<notin> set cs"
    and len: "length cs = (if uart_transmitting s then 31 else 32)"
    and r: "uart_send_string 0 cs s = Some s'"
  shows "advance (uart_tx_head s') = uart_tx_tail s'"
proof (rule ccontr)
  assume nf: "advance (uart_tx_head s') \<noteq> uart_tx_tail s'"
  have "CHR 0x00 \<notin> set (cs @ ''x'')" using nul by simp
  from string_fits [OF inv e this] len
  have "uart_send_string 0 (cs @ ''x'') s = None" by (simp split: if_splits)
  moreover have "uart_send_string 0 (cs @ ''x'') s \<noteq> None"
    using r nf by (simp add: send_string_append [OF nul] send_char_now)
  ultimately show False by simp
qed


text \<open>
  Claim C4, as stated, fails: of a 40-byte string sent from reset with no drain
  event, the first 32 calls all return, so the 32nd call does not wait.
\<close>

theorem backpressure_counterexample:
  "uart_send_string 0 (take 32 (replicate 40 (CHR ''x''))) initial \<noteq> None"
  using string_fits [OF initial_inv, of "take 32 (replicate 40 (CHR ''x''))"]
  by (simp add: initial_def)

text \<open>
  Claim C4, amended. With no drain event an enqueue waits for ever exactly when the
  advanced head equals tail, and one drain event releases it. An enqueue that returns
  has appended its byte and left every byte that was waiting in place, in order. A
  string without NUL, sent with no drain event into an empty queue, is taken whole
  exactly when it has at most 32 bytes while the channel is idle (the first byte goes
  to the channel at once and 31 wait), and at most 31 bytes while the channel is still
  busy. So from reset the first 32 calls of a 40-byte string return and the 33rd waits
  until a drain event.
\<close>

theorem backpressure:
  assumes inv: "uart_inv s"
  shows "(uart_send_char 0 c s = None \<longleftrightarrow> advance (uart_tx_head s) = uart_tx_tail s)
       \<and> uart_send_char (Suc n) c s \<noteq> None
       \<and> (\<forall>s'. uart_send_char n c s = Some s' \<longrightarrow> accepted s' = accepted s @ [c])
       \<and> (uart_tx_head s = uart_tx_tail s \<and> CHR 0x00 \<notin> set cs \<longrightarrow>
            (uart_send_string 0 cs s \<noteq> None
               \<longleftrightarrow> length cs \<le> (if uart_transmitting s then 31 else 32)))
       \<and> (length cs = 40 \<and> CHR 0x00 \<notin> set cs \<longrightarrow>
            (\<forall>k \<le> 40. uart_send_string 0 (take k cs) initial \<noteq> None \<longleftrightarrow> k \<le> 32)
            \<and> (\<forall>s32. uart_send_string 0 (take 32 cs) initial = Some s32 \<longrightarrow>
                  uart_send_char 0 (cs ! 32) s32 = None
                  \<and> uart_send_char (Suc n) (cs ! 32) s32 \<noteq> None))"
proof -
  from inv have ok: "uart_ok s" by (simp add: uart_inv_def)
  have 1: "uart_send_char 0 c s = None \<longleftrightarrow> advance (uart_tx_head s) = uart_tx_tail s"
    by (rule send_char_blocks)
  have 2: "uart_send_char (Suc n) c s \<noteq> None" by (rule send_unblocks [OF inv])
  have 3: "accepted s' = accepted s @ [c]" if "uart_send_char n c s = Some s'" for s'
    using send_char_keeps [OF ok that] by simp
  have 4: "uart_send_string 0 cs s \<noteq> None
             \<longleftrightarrow> length cs \<le> (if uart_transmitting s then 31 else 32)"
    if "uart_tx_head s = uart_tx_tail s \<and> CHR 0x00 \<notin> set cs"
    using that string_fits [OF inv] by blast
  have 5: "(\<forall>k \<le> 40. uart_send_string 0 (take k cs) initial \<noteq> None \<longleftrightarrow> k \<le> 32)
            \<and> (\<forall>s32. uart_send_string 0 (take 32 cs) initial = Some s32 \<longrightarrow>
                  uart_send_char 0 (cs ! 32) s32 = None
                  \<and> uart_send_char (Suc n) (cs ! 32) s32 \<noteq> None)"
    if h: "length cs = 40 \<and> CHR 0x00 \<notin> set cs"
  proof (intro conjI allI impI)
    fix k :: nat
    assume k: "k \<le> 40"
    have i: "uart_tx_head initial = uart_tx_tail initial" "\<not> uart_transmitting initial"
      by (simp_all add: initial_def)
    from h have "CHR 0x00 \<notin> set (take k cs)" by (auto dest: in_set_takeD)
    from string_fits [OF initial_inv i(1) this] i(2) h k
    show "uart_send_string 0 (take k cs) initial \<noteq> None \<longleftrightarrow> k \<le> 32" by simp
  next
    fix s32
    assume r: "uart_send_string 0 (take 32 cs) initial = Some s32"
    have i: "uart_tx_head initial = uart_tx_tail initial" "\<not> uart_transmitting initial"
      by (simp_all add: initial_def)
    from h have nul: "CHR 0x00 \<notin> set (take 32 cs)" by (auto dest: in_set_takeD)
    from h i(2) have len: "length (take 32 cs) = (if uart_transmitting initial then 31 else 32)"
      by simp
    from send_string_full [OF initial_inv i(1) nul len r]
    show "uart_send_char 0 (cs ! 32) s32 = None" by (simp add: send_char_blocks)
    from send_string_keeps [OF initial_inv r]
    show "uart_send_char (Suc n) (cs ! 32) s32 \<noteq> None" by (rule send_unblocks)
  qed
  from 1 2 3 4 5 show ?thesis by blast
qed

theorem backpressure_witness:
  "uart_inv initial
   \<and> uart_send_char 0 (CHR ''x'') initial \<noteq> None
   \<and> uart_send_string 0 (replicate 32 (CHR ''x'')) initial \<noteq> None
   \<and> uart_send_string 0 (replicate 33 (CHR ''x'')) initial = None"
proof -
  have a: "advance (uart_tx_head initial) \<noteq> uart_tx_tail initial"
    and e: "uart_tx_head initial = uart_tx_tail initial \<and> CHR 0x00 \<notin> set (replicate 40 (CHR ''x''))"
    and l: "length (replicate 40 (CHR ''x'')) = 40 \<and> CHR 0x00 \<notin> set (replicate 40 (CHR ''x''))"
    by (simp_all add: initial_def advance_def UART_BUFFER_SIZE_def)
  note b = backpressure [OF initial_inv, of "CHR ''x''" 0 "replicate 40 (CHR ''x'')"]
  from b a have 1: "uart_send_char 0 (CHR ''x'') initial \<noteq> None" by blast
  from b l have k: "\<forall>k \<le> 40. uart_send_string 0 (take k (replicate 40 (CHR ''x''))) initial \<noteq> None
                      \<longleftrightarrow> k \<le> 32" by blast
  from k [rule_format, of 32] have 2: "uart_send_string 0 (replicate 32 (CHR ''x'')) initial \<noteq> None"
    by simp
  from k [rule_format, of 33] have 3: "uart_send_string 0 (replicate 33 (CHR ''x'')) initial = None"
    by simp
  from initial_inv 1 2 3 show ?thesis by blast
qed


text \<open>
  Claim C6. In every state whose queue is not full, an enqueue returns at once, with
  the byte written at the head slot and head advanced modulo the capacity. Then, if and
  only if the channel is idle and the queue is not empty, the flag is set, the byte at
  the tail slot is handed to the channel and tail advances modulo the capacity. So on
  a drained queue (flag false, head equal to tail) the enqueue restarts transmission
  with its own byte.
\<close>

theorem enqueue_effect:
  assumes ok: "uart_ok s" and nf: "advance (uart_tx_head s) \<noteq> uart_tx_tail s"
  shows "\<exists>s'. uart_send_char n c s = Some s'
       \<and> uart_tx_buffer s' = (uart_tx_buffer s)[unat (uart_tx_head s) := c]
       \<and> uart_tx_head s' = advance (uart_tx_head s)
       \<and> unat (uart_tx_head s') = (unat (uart_tx_head s) + 1) mod UART_BUFFER_SIZE
       \<and> (if \<not> uart_transmitting s \<and> uart_tx_head s' \<noteq> uart_tx_tail s
          then uart_transmitting s'
               \<and> UDR0 s' = UDR0 s @ [uart_tx_buffer s' ! unat (uart_tx_tail s)]
               \<and> uart_tx_tail s' = advance (uart_tx_tail s)
               \<and> unat (uart_tx_tail s') = (unat (uart_tx_tail s) + 1) mod UART_BUFFER_SIZE
          else uart_transmitting s' = uart_transmitting s \<and> UDR0 s' = UDR0 s
               \<and> uart_tx_tail s' = uart_tx_tail s)
       \<and> (\<not> uart_transmitting s \<and> uart_tx_head s = uart_tx_tail s \<longrightarrow>
            uart_transmitting s' \<and> tx_busy s' \<and> UDR0 s' = UDR0 s @ [c])"
proof -
  from ok have "unat (uart_tx_head s) < length (uart_tx_buffer s)"
    by (simp add: uart_ok_def)
  then show ?thesis using nf
    by (auto simp add: send_char_now [OF nf] uart_start_if_idle_def write_UDR0_def Let_def
          unat_advance UART_BUFFER_SIZE_def)
qed

theorem enqueue_effect_witness:
  "uart_ok initial \<and> advance (uart_tx_head initial) \<noteq> uart_tx_tail initial
   \<and> uart_send_char 0 (CHR ''S'') initial \<noteq> None
   \<and> UDR0 (the (uart_send_char 0 (CHR ''S'') initial)) = ''S''
   \<and> uart_transmitting (the (uart_send_char 0 (CHR ''S'') initial))"
proof -
  have ok: "uart_ok initial" and nf: "advance (uart_tx_head initial) \<noteq> uart_tx_tail initial"
    and i: "\<not> uart_transmitting initial \<and> uart_tx_head initial = uart_tx_tail initial"
           "UDR0 initial = []"
    by (simp_all add: uart_ok_def initial_def advance_def UART_BUFFER_SIZE_def)
  from enqueue_effect [OF ok nf, of 0 "CHR ''S''"] i ok nf show ?thesis by auto
qed




section \<open>The pin-change handlers\<close>

lemma falling_test:
  "((cur XOR prev) AND push_bit p 1 \<noteq> 0 \<and> \<not> (cur AND push_bit p 1 \<noteq> 0))
   \<longleftrightarrow> falling p cur prev"
  by (simp add: falling_def and_exp_eq_0_iff_not_bit)

lemma falling_high_low: "falling p cur prev \<longleftrightarrow> bit prev p \<and> \<not> bit cur p"
  by (auto simp add: falling_def bit_xor_iff)

lemma send_room:
  assumes ok: "uart_ok s" and room: "1 \<le> uart_free s"
  shows "\<exists>s'. uart_send_char n c s = Some s' \<and> accepted s' = accepted s @ [c]
              \<and> uart_ok s' \<and> uart_free s \<le> Suc (uart_free s')"
proof -
  from room have "qlen s \<noteq> 31" by (simp add: uart_free_def UART_BUFFER_SIZE_def)
  with full_iff [OF ok] have nf: "advance (uart_tx_head s) \<noteq> uart_tx_tail s" by simp
  let ?p = "s\<lparr> uart_tx_buffer := (uart_tx_buffer s)[unat (uart_tx_head s) := c],
               uart_tx_head := advance (uart_tx_head s) \<rparr>"
  have r: "uart_send_char n c s = Some (uart_start_if_idle ?p)" by (rule send_char_now [OF nf])
  from start_qlen [OF push_ok [OF ok], of c] push_qlen [OF ok nf, of c]
  have "qlen (uart_start_if_idle ?p) \<le> Suc (qlen s)" by (simp split: if_splits)
  then have "uart_free s \<le> Suc (uart_free (uart_start_if_idle ?p))"
    by (simp add: uart_free_def)
  with send_char_keeps [OF ok r] r show ?thesis by simp
qed

lemma send_pair_if_room:
  assumes ok: "uart_ok s" and room: "length (pair_if b c) \<le> uart_free s"
  shows "\<exists>s'. send_pair_if b c s = Some s' \<and> accepted s' = accepted s @ pair_if b c
              \<and> uart_ok s' \<and> uart_free s \<le> uart_free s' + length (pair_if b c)"
proof (cases b)
  case False
  with ok show ?thesis by (simp add: send_pair_if_def pair_if_def)
next
  case True
  with room have 2: "2 \<le> uart_free s" by (simp add: pair_if_def)
  then have "1 \<le> uart_free s" by simp
  from send_room [OF ok this, of 0 c] obtain s1 where
    1: "uart_send_char 0 c s = Some s1" "accepted s1 = accepted s @ [c]" "uart_ok s1"
       "uart_free s \<le> Suc (uart_free s1)" by blast
  with 2 have "1 \<le> uart_free s1" by simp
  from send_room [OF 1(3) this, of 0 NEWLINE] obtain s2 where
    3: "uart_send_char 0 NEWLINE s1 = Some s2" "accepted s2 = accepted s1 @ [NEWLINE]"
       "uart_ok s2" "uart_free s1 \<le> Suc (uart_free s2)" by blast
  from True 1 3 show ?thesis by (simp add: send_pair_if_def pair_if_def)
qed

lemma send_pair_if_none: "send_pair_if False c s = Some s"
  by (simp add: send_pair_if_def)

lemma two_blocks:
  assumes ok: "uart_ok s"
    and room: "length (pair_if b1 c1 @ pair_if b2 c2) \<le> uart_free s"
  shows "\<exists>s2. (do { s1 \<leftarrow> send_pair_if b1 c1 s; s2 \<leftarrow> send_pair_if b2 c2 s1; Some (f s2) })
               = Some (f s2)
              \<and> accepted s2 = accepted s @ pair_if b1 c1 @ pair_if b2 c2 \<and> uart_ok s2"
proof -
  from room have "length (pair_if b1 c1) \<le> uart_free s" by simp
  from send_pair_if_room [OF ok this] obtain s1 where
    1: "send_pair_if b1 c1 s = Some s1" "accepted s1 = accepted s @ pair_if b1 c1" "uart_ok s1"
       "uart_free s \<le> uart_free s1 + length (pair_if b1 c1)" by blast
  with room have "length (pair_if b2 c2) \<le> uart_free s1" by simp
  from send_pair_if_room [OF 1(3) this] obtain s2 where
    2: "send_pair_if b2 c2 s1 = Some s2" "accepted s2 = accepted s1 @ pair_if b2 c2" "uart_ok s2"
    by blast
  from 1 2 show ?thesis by (intro exI [of _ s2]) simp
qed

lemma PCINT0_blocks:
  "PCINT0_vect cur s =
     do { s1 \<leftarrow> send_pair_if (falling PB3 cur (last_portb s)) CMD_DOWN s;
          s2 \<leftarrow> send_pair_if (falling PB4 cur (last_portb s)) CMD_RIGHT s1;
          Some (s2\<lparr> last_portb := cur \<rparr>) }"
  by (simp only: PCINT0_vect_def Let_def BTN_DOWN_def BTN_RIGHT_def falling_test send_pair_if_def)

lemma PCINT1_blocks:
  "PCINT1_vect cur s =
     do { s1 \<leftarrow> send_pair_if (falling PC3 cur (last_portc s)) CMD_UP s;
          s2 \<leftarrow> send_pair_if (falling PC2 cur (last_portc s)) CMD_LEFT s1;
          Some (s2\<lparr> last_portc := cur \<rparr>) }"
  by (simp only: PCINT1_vect_def Let_def BTN_UP_def BTN_LEFT_def falling_test send_pair_if_def)

lemma PCINT2_blocks:
  "PCINT2_vect cur s =
     do { s1 \<leftarrow> send_pair_if (falling PD5 cur (last_portd s)) CMD_ACTION_A s;
          s2 \<leftarrow> send_pair_if (falling PD2 cur (last_portd s)) CMD_ACTION_B s1;
          Some (s2\<lparr> last_portd := cur \<rparr>) }"
  by (simp only: PCINT2_vect_def Let_def BTN_ACTION_A_def BTN_ACTION_B_def falling_test
        send_pair_if_def)

lemma accepted_port [simp]:
  "accepted (s\<lparr> last_portb := v \<rparr>) = accepted s"
  "accepted (s\<lparr> last_portc := v \<rparr>) = accepted s"
  "accepted (s\<lparr> last_portd := v \<rparr>) = accepted s"
  by (simp_all add: accepted_def queued_def qlen_def)

lemma PCINT0_emits:
  assumes "uart_ok s"
    and "length (pair_if (falling PB3 cur (last_portb s)) CMD_DOWN
                 @ pair_if (falling PB4 cur (last_portb s)) CMD_RIGHT) \<le> uart_free s"
  shows "\<exists>s'. PCINT0_vect cur s = Some s' \<and> last_portb s' = cur
              \<and> accepted s' = accepted s @ pair_if (falling PB3 cur (last_portb s)) CMD_DOWN
                                          @ pair_if (falling PB4 cur (last_portb s)) CMD_RIGHT"
  using two_blocks [OF assms, of "\<lambda>s2. s2\<lparr> last_portb := cur \<rparr>"]
  by (auto simp add: PCINT0_blocks)

lemma PCINT1_emits:
  assumes "uart_ok s"
    and "length (pair_if (falling PC3 cur (last_portc s)) CMD_UP
                 @ pair_if (falling PC2 cur (last_portc s)) CMD_LEFT) \<le> uart_free s"
  shows "\<exists>s'. PCINT1_vect cur s = Some s' \<and> last_portc s' = cur
              \<and> accepted s' = accepted s @ pair_if (falling PC3 cur (last_portc s)) CMD_UP
                                          @ pair_if (falling PC2 cur (last_portc s)) CMD_LEFT"
  using two_blocks [OF assms, of "\<lambda>s2. s2\<lparr> last_portc := cur \<rparr>"]
  by (auto simp add: PCINT1_blocks)

lemma PCINT2_emits:
  assumes "uart_ok s"
    and "length (pair_if (falling PD5 cur (last_portd s)) CMD_ACTION_A
                 @ pair_if (falling PD2 cur (last_portd s)) CMD_ACTION_B) \<le> uart_free s"
  shows "\<exists>s'. PCINT2_vect cur s = Some s' \<and> last_portd s' = cur
              \<and> accepted s' = accepted s @ pair_if (falling PD5 cur (last_portd s)) CMD_ACTION_A
                                          @ pair_if (falling PD2 cur (last_portd s)) CMD_ACTION_B"
  using two_blocks [OF assms, of "\<lambda>s2. s2\<lparr> last_portd := cur \<rparr>"]
  by (auto simp add: PCINT2_blocks)


lemma PCINT0_quiet:
  "\<not> falling PB3 cur (last_portb s) \<and> \<not> falling PB4 cur (last_portb s) \<Longrightarrow>
   PCINT0_vect cur s = Some (s\<lparr> last_portb := cur \<rparr>)"
  by (simp add: PCINT0_blocks send_pair_if_none)

lemma PCINT1_quiet:
  "\<not> falling PC3 cur (last_portc s) \<and> \<not> falling PC2 cur (last_portc s) \<Longrightarrow>
   PCINT1_vect cur s = Some (s\<lparr> last_portc := cur \<rparr>)"
  by (simp add: PCINT1_blocks send_pair_if_none)

lemma PCINT2_quiet:
  "\<not> falling PD5 cur (last_portd s) \<and> \<not> falling PD2 cur (last_portd s) \<Longrightarrow>
   PCINT2_vect cur s = Some (s\<lparr> last_portd := cur \<rparr>)"
  by (simp add: PCINT2_blocks send_pair_if_none)

lemma PCINT_snapshot:
  "PCINT0_vect cur s = Some s' \<Longrightarrow> last_portb s' = cur"
  "PCINT1_vect cur s = Some s' \<Longrightarrow> last_portc s' = cur"
  "PCINT2_vect cur s = Some s' \<Longrightarrow> last_portd s' = cur"
  by (auto simp add: PCINT0_blocks PCINT1_blocks PCINT2_blocks bind_eq_Some_conv)

text \<open>
  Claim C1. A group evaluation with previous snapshot \<open>prev\<close> and current value \<open>cur\<close>
  emits, for each monitored pin of the group, the pair of command byte and newline
  exactly once when the pin's bit is set in \<open>cur XOR prev\<close> and clear in \<open>cur\<close>, and
  not at all otherwise; the handler returns whenever the queue has room for what it
  emits. When no monitored pin fell (rising edges, changes of other bits) nothing is
  emitted and only the snapshot changes.
\<close>

theorem edge_emission:
  assumes ok: "uart_ok s"
  shows "(length (pair_if (falling PB3 cur (last_portb s)) CMD_DOWN
                  @ pair_if (falling PB4 cur (last_portb s)) CMD_RIGHT) \<le> uart_free s \<longrightarrow>
            (\<exists>s'. PCINT0_vect cur s = Some s'
                 \<and> accepted s' = accepted s @ pair_if (falling PB3 cur (last_portb s)) CMD_DOWN
                                             @ pair_if (falling PB4 cur (last_portb s)) CMD_RIGHT))
       \<and> (length (pair_if (falling PC3 cur (last_portc s)) CMD_UP
                  @ pair_if (falling PC2 cur (last_portc s)) CMD_LEFT) \<le> uart_free s \<longrightarrow>
            (\<exists>s'. PCINT1_vect cur s = Some s'
                 \<and> accepted s' = accepted s @ pair_if (falling PC3 cur (last_portc s)) CMD_UP
                                             @ pair_if (falling PC2 cur (last_portc s)) CMD_LEFT))
       \<and> (length (pair_if (falling PD5 cur (last_portd s)) CMD_ACTION_A
                  @ pair_if (falling PD2 cur (last_portd s)) CMD_ACTION_B) \<le> uart_free s \<longrightarrow>
            (\<exists>s'. PCINT2_vect cur s = Some s'
                 \<and> accepted s' = accepted s @ pair_if (falling PD5 cur (last_portd s)) CMD_ACTION_A
                                             @ pair_if (falling PD2 cur (last_portd s)) CMD_ACTION_B))
       \<and> (\<not> falling PB3 cur (last_portb s) \<and> \<not> falling PB4 cur (last_portb s) \<longrightarrow>
            PCINT0_vect cur s = Some (s\<lparr> last_portb := cur \<rparr>))
       \<and> (\<not> falling PC3 cur (last_portc s) \<and> \<not> falling PC2 cur (last_portc s) \<longrightarrow>
            PCINT1_vect cur s = Some (s\<lparr> last_portc := cur \<rparr>))
       \<and> (\<not> falling PD5 cur (last_portd s) \<and> \<not> falling PD2 cur (last_portd s) \<longrightarrow>
            PCINT2_vect cur s = Some (s\<lparr> last_portd := cur \<rparr>))"
  using PCINT0_emits [OF ok, of cur] PCINT1_emits [OF ok, of cur] PCINT2_emits [OF ok, of cur]
    PCINT0_quiet [of cur s] PCINT1_quiet [of cur s] PCINT2_quiet [of cur s]
  by blast

lemma idle_high_ok: "uart_ok (initial\<lparr> last_portb := b, last_portc := c, last_portd := d \<rparr>)"
  by (simp add: uart_ok_def initial_def UART_BUFFER_SIZE_def)

lemma idle_high_free: "uart_free (initial\<lparr> last_portb := b, last_portc := c, last_portd := d \<rparr>) = 31"
  by (simp add: uart_free_def qlen_def ring_dist_def initial_def UART_BUFFER_SIZE_def)

lemma falls_eval:
  "falling PB3 0x10 0x18" "\<not> falling PB4 0x10 0x18"
  "falling PC3 0x00 0x0C" "falling PC2 0x00 0x0C"
  "falling PD5 0x00 0x24" "falling PD2 0x00 0x24"
  "falling PB3 0x00 0x18" "falling PB4 0x00 0x18"
  by (simp_all add: falling_high_low PB3_def PB4_def PC2_def PC3_def PD2_def PD5_def)

theorem edge_emission_witness:
  "uart_ok (initial\<lparr> last_portb := 0x18, last_portc := 0x0C, last_portd := 0x24 \<rparr>)
   \<and> (\<exists>s'. PCINT0_vect 0x10 (initial\<lparr> last_portb := 0x18, last_portc := 0x0C, last_portd := 0x24 \<rparr>)
              = Some s' \<and> accepted s' = [CMD_DOWN, NEWLINE])
   \<and> PCINT0_vect 0x1F (initial\<lparr> last_portb := 0x18, last_portc := 0x0C, last_portd := 0x24 \<rparr>)
       = Some (initial\<lparr> last_portb := 0x1F, last_portc := 0x0C, last_portd := 0x24 \<rparr>)"
proof -
  let ?S = "initial\<lparr> last_portb := 0x18, last_portc := 0x0C, last_portd := 0x24 \<rparr>"
  have ok: "uart_ok ?S" by (rule idle_high_ok)
  have q: "\<not> falling PB3 0x1F (last_portb ?S) \<and> \<not> falling PB4 0x1F (last_portb ?S)"
    by (simp add: falling_high_low PB3_def PB4_def)
  have l: "length (pair_if (falling PB3 0x10 (last_portb ?S)) CMD_DOWN
                  @ pair_if (falling PB4 0x10 (last_portb ?S)) CMD_RIGHT) \<le> uart_free ?S"
    by (simp add: idle_high_free pair_if_def)
  from edge_emission [OF ok, of "0x10", THEN conjunct1, THEN mp, OF l]
  have "\<exists>s'. PCINT0_vect 0x10 ?S = Some s' \<and> accepted s' = [CMD_DOWN, NEWLINE]"
    by (simp add: initial_accepted pair_if_def falls_eval)
  moreover from edge_emission [OF ok, of "0x1F"] q
  have "PCINT0_vect 0x1F ?S = Some (?S\<lparr> last_portb := 0x1F \<rparr>)" by blast
  ultimately show ?thesis using ok by simp
qed


lemma room4:
  "4 \<le> uart_free s \<Longrightarrow> length (pair_if b1 c1 @ pair_if b2 c2) \<le> uart_free s"
  by (simp add: pair_if_def)

lemma pair_if_table: "pair_if (falling p cur prev) c
                      = (if bit prev p \<and> \<not> bit cur p then [c, CHR 0x0A] else [])"
  by (simp add: pair_if_def falling_high_low NEWLINE_def)

text \<open>
  Claim C5. The table of pins and commands: in group B a fall of bit 3 emits \<open>'D'\<close>
  and of bit 4 \<open>'R'\<close>; in group C a fall of bit 3 emits \<open>'U'\<close> and of bit 2 \<open>'L'\<close>; in
  group D a fall of bit 5 emits \<open>'A'\<close> and of bit 2 \<open>'B'\<close>, each followed by a newline.
  What a handler emits depends on these bits alone, so no other pin causes an
  emission: when none of the group's two pins fell, the handler only stores the
  snapshot.
\<close>

theorem pin_command_table:
  assumes ok: "uart_ok s" and room: "4 \<le> uart_free s"
  shows "(\<exists>s'. PCINT0_vect cur s = Some s' \<and> accepted s' = accepted s
            @ (if bit (last_portb s) 3 \<and> \<not> bit cur 3 then [CHR ''D'', CHR 0x0A] else [])
            @ (if bit (last_portb s) 4 \<and> \<not> bit cur 4 then [CHR ''R'', CHR 0x0A] else []))
       \<and> (\<exists>s'. PCINT1_vect cur s = Some s' \<and> accepted s' = accepted s
            @ (if bit (last_portc s) 3 \<and> \<not> bit cur 3 then [CHR ''U'', CHR 0x0A] else [])
            @ (if bit (last_portc s) 2 \<and> \<not> bit cur 2 then [CHR ''L'', CHR 0x0A] else []))
       \<and> (\<exists>s'. PCINT2_vect cur s = Some s' \<and> accepted s' = accepted s
            @ (if bit (last_portd s) 5 \<and> \<not> bit cur 5 then [CHR ''A'', CHR 0x0A] else [])
            @ (if bit (last_portd s) 2 \<and> \<not> bit cur 2 then [CHR ''B'', CHR 0x0A] else []))
       \<and> (\<not> (bit (last_portb s) 3 \<and> \<not> bit cur 3) \<and> \<not> (bit (last_portb s) 4 \<and> \<not> bit cur 4)
            \<longrightarrow> PCINT0_vect cur s = Some (s\<lparr> last_portb := cur \<rparr>))
       \<and> (\<not> (bit (last_portc s) 3 \<and> \<not> bit cur 3) \<and> \<not> (bit (last_portc s) 2 \<and> \<not> bit cur 2)
            \<longrightarrow> PCINT1_vect cur s = Some (s\<lparr> last_portc := cur \<rparr>))
       \<and> (\<not> (bit (last_portd s) 5 \<and> \<not> bit cur 5) \<and> \<not> (bit (last_portd s) 2 \<and> \<not> bit cur 2)
            \<longrightarrow> PCINT2_vect cur s = Some (s\<lparr> last_portd := cur \<rparr>))"
proof -
  have b: "\<exists>s'. PCINT0_vect cur s = Some s' \<and> accepted s' = accepted s
            @ (if bit (last_portb s) 3 \<and> \<not> bit cur 3 then [CHR ''D'', CHR 0x0A] else [])
            @ (if bit (last_portb s) 4 \<and> \<not> bit cur 4 then [CHR ''R'', CHR 0x0A] else [])"
    using PCINT0_emits [OF ok room4 [OF room], of cur]
    by (simp only: pair_if_table PB3_def PB4_def CMD_DOWN_def CMD_RIGHT_def) blast
  have c: "\<exists>s'. PCINT1_vect cur s = Some s' \<and> accepted s' = accepted s
            @ (if bit (last_portc s) 3 \<and> \<not> bit cur 3 then [CHR ''U'', CHR 0x0A] else [])
            @ (if bit (last_portc s) 2 \<and> \<not> bit cur 2 then [CHR ''L'', CHR 0x0A] else [])"
    using PCINT1_emits [OF ok room4 [OF room], of cur]
    by (simp only: pair_if_table PC3_def PC2_def CMD_UP_def CMD_LEFT_def) blast
  have d: "\<exists>s'. PCINT2_vect cur s = Some s' \<and> accepted s' = accepted s
            @ (if bit (last_portd s) 5 \<and> \<not> bit cur 5 then [CHR ''A'', CHR 0x0A] else [])
            @ (if bit (last_portd s) 2 \<and> \<not> bit cur 2 then [CHR ''B'', CHR 0x0A] else [])"
    using PCINT2_emits [OF ok room4 [OF room], of cur]
    by (simp only: pair_if_table PD5_def PD2_def CMD_ACTION_A_def CMD_ACTION_B_def) blast
  have qb: "\<not> (bit (last_portb s) 3 \<and> \<not> bit cur 3) \<and> \<not> (bit (last_portb s) 4 \<and> \<not> bit cur 4)
            \<longrightarrow> PCINT0_vect cur s = Some (s\<lparr> last_portb := cur \<rparr>)"
    using PCINT0_quiet [of cur s] by (simp only: falling_high_low PB3_def PB4_def) blast
  have qc: "\<not> (bit (last_portc s) 3 \<and> \<not> bit cur 3) \<and> \<not> (bit (last_portc s) 2 \<and> \<not> bit cur 2)
            \<longrightarrow> PCINT1_vect cur s = Some (s\<lparr> last_portc := cur \<rparr>)"
    using PCINT1_quiet [of cur s] by (simp only: falling_high_low PC3_def PC2_def) blast
  have qd: "\<not> (bit (last_portd s) 5 \<and> \<not> bit cur 5) \<and> \<not> (bit (last_portd s) 2 \<and> \<not> bit cur 2)
            \<longrightarrow> PCINT2_vect cur s = Some (s\<lparr> last_portd := cur \<rparr>)"
    using PCINT2_quiet [of cur s] by (simp only: falling_high_low PD5_def PD2_def) blast
  from b c d qb qc qd show ?thesis by (intro conjI)
qed

theorem pin_command_table_witness:
  "uart_ok (initial\<lparr> last_portb := 0x18, last_portc := 0x0C, last_portd := 0x24 \<rparr>)
   \<and> 4 \<le> uart_free (initial\<lparr> last_portb := 0x18, last_portc := 0x0C, last_portd := 0x24 \<rparr>)
   \<and> (\<exists>s'. PCINT2_vect 0x04 (initial\<lparr> last_portb := 0x18, last_portc := 0x0C, last_portd := 0x24 \<rparr>)
              = Some s' \<and> accepted s' = ''A'' @ [CHR 0x0A])
   \<and> (\<exists>s'. PCINT1_vect 0x08 (initial\<lparr> last_portb := 0x18, last_portc := 0x0C, last_portd := 0x24 \<rparr>)
              = Some s' \<and> accepted s' = ''L'' @ [CHR 0x0A])"
proof -
  let ?S = "initial\<lparr> last_portb := 0x18, last_portc := 0x0C, last_portd := 0x24 \<rparr>"
  have ok: "uart_ok ?S" by (rule idle_high_ok)
  have room: "4 \<le> uart_free ?S" by (simp add: idle_high_free)
  from pin_command_table [OF ok room, of "0x04", THEN conjunct2, THEN conjunct2, THEN conjunct1]
  have 1: "\<exists>s'. PCINT2_vect 0x04 ?S = Some s' \<and> accepted s' = ''A'' @ [CHR 0x0A]"
    by (simp add: initial_accepted)
  from pin_command_table [OF ok room, of "0x08", THEN conjunct2, THEN conjunct1]
  have 2: "\<exists>s'. PCINT1_vect 0x08 ?S = Some s' \<and> accepted s' = ''L'' @ [CHR 0x0A]"
    by (simp add: initial_accepted)
  from ok room 1 2 show ?thesis by (intro conjI)
qed


text \<open>
  Claim C8, as stated, fails: when bits 2 and 3 of group C fall together, with both
  buttons idle before, the handler emits the UP pair first and the LEFT pair second.
\<close>

theorem simultaneous_order_counterexample:
  "falling PC2 0x00 0x0C \<and> falling PC3 0x00 0x0C
   \<and> PCINT1_vect 0x00 (initial\<lparr> last_portc := 0x0C \<rparr>) \<noteq> None
   \<and> accepted (the (PCINT1_vect 0x00 (initial\<lparr> last_portc := 0x0C \<rparr>)))
       = [CHR ''U'', CHR 0x0A, CHR ''L'', CHR 0x0A]"
proof -
  let ?S = "initial\<lparr> last_portc := 0x0C \<rparr>"
  have ok: "uart_ok ?S" by (simp add: uart_ok_def initial_def UART_BUFFER_SIZE_def)
  have "uart_free ?S = 31"
    by (simp add: uart_free_def qlen_def ring_dist_def initial_def UART_BUFFER_SIZE_def)
  then have "length (pair_if (falling PC3 0x00 (last_portc ?S)) CMD_UP
                    @ pair_if (falling PC2 0x00 (last_portc ?S)) CMD_LEFT) \<le> uart_free ?S"
    by (simp add: pair_if_def)
  from PCINT1_emits [OF ok this] obtain s' where
    "PCINT1_vect 0x00 ?S = Some s'"
    "accepted s' = [CHR ''U'', CHR 0x0A, CHR ''L'', CHR 0x0A]"
    by (auto simp add: pair_if_def falls_eval initial_accepted CMD_UP_def CMD_LEFT_def NEWLINE_def)
  then show ?thesis by (simp add: falls_eval)
qed

text \<open>
  Claim C8, amended. When both monitored pins of a group fall in one evaluation, both
  pairs are emitted, in the fixed order of the handler's source text: in group B the
  DOWN pair (bit 3) before the RIGHT pair (bit 4), in group C the UP pair (bit 3)
  before the LEFT pair (bit 2), in group D the ACTION_A pair (bit 5) before the
  ACTION_B pair (bit 2).
\<close>

theorem simultaneous_order:
  assumes ok: "uart_ok s" and room: "4 \<le> uart_free s"
  shows "(falling PB3 cur (last_portb s) \<and> falling PB4 cur (last_portb s) \<longrightarrow>
            (\<exists>s'. PCINT0_vect cur s = Some s'
                 \<and> accepted s' = accepted s @ [CMD_DOWN, NEWLINE, CMD_RIGHT, NEWLINE]))
       \<and> (falling PC2 cur (last_portc s) \<and> falling PC3 cur (last_portc s) \<longrightarrow>
            (\<exists>s'. PCINT1_vect cur s = Some s'
                 \<and> accepted s' = accepted s @ [CMD_UP, NEWLINE, CMD_LEFT, NEWLINE]))
       \<and> (falling PD2 cur (last_portd s) \<and> falling PD5 cur (last_portd s) \<longrightarrow>
            (\<exists>s'. PCINT2_vect cur s = Some s'
                 \<and> accepted s' = accepted s @ [CMD_ACTION_A, NEWLINE, CMD_ACTION_B, NEWLINE]))"
  using PCINT0_emits [OF ok room4 [OF room], of cur] PCINT1_emits [OF ok room4 [OF room], of cur]
    PCINT2_emits [OF ok room4 [OF room], of cur]
  by (auto simp add: pair_if_def)

theorem simultaneous_order_witness:
  "uart_ok (initial\<lparr> last_portb := 0x18, last_portc := 0x0C, last_portd := 0x24 \<rparr>)
   \<and> 4 \<le> uart_free (initial\<lparr> last_portb := 0x18, last_portc := 0x0C, last_portd := 0x24 \<rparr>)
   \<and> falling PD2 0x00 0x24 \<and> falling PD5 0x00 0x24
   \<and> (\<exists>s'. PCINT2_vect 0x00 (initial\<lparr> last_portb := 0x18, last_portc := 0x0C, last_portd := 0x24 \<rparr>)
              = Some s' \<and> accepted s' = [CMD_ACTION_A, NEWLINE, CMD_ACTION_B, NEWLINE])"
proof -
  let ?S = "initial\<lparr> last_portb := 0x18, last_portc := 0x0C, last_portd := 0x24 \<rparr>"
  have ok: "uart_ok ?S" by (rule idle_high_ok)
  have room: "4 \<le> uart_free ?S" by (simp add: idle_high_free)
  have f: "falling PD2 0x00 (last_portd ?S) \<and> falling PD5 0x00 (last_portd ?S)"
    by (simp add: falls_eval)
  from simultaneous_order [OF ok room, of "0x00", THEN conjunct2, THEN conjunct2, THEN mp, OF f]
  have "\<exists>s'. PCINT2_vect 0x00 ?S = Some s'
            \<and> accepted s' = [CMD_ACTION_A, NEWLINE, CMD_ACTION_B, NEWLINE]"
    by (simp add: initial_accepted)
  with ok room show ?thesis by (simp add: falls_eval)
qed

text \<open>
  Claim C9. Every group evaluation returns whenever the queue has room for what it
  emits, and has then stored the value read as the group's snapshot; no evaluation
  returns without having stored it. When no monitored pin fell, storing the snapshot
  is all the handler does, whatever the queue holds. With the snapshot of group B at
  \<open>0b00011000\<close> and the value \<open>0b00010000\<close> read, the handler enqueues \<open>'D'\<close> and newline
  and stores \<open>0b00010000\<close>.
\<close>

theorem snapshot_stored:
  "(uart_ok s \<and> length (pair_if (falling PB3 cur (last_portb s)) CMD_DOWN
                         @ pair_if (falling PB4 cur (last_portb s)) CMD_RIGHT) \<le> uart_free s
      \<longrightarrow> (\<exists>s'. PCINT0_vect cur s = Some s' \<and> last_portb s' = cur))
   \<and> (uart_ok s \<and> length (pair_if (falling PC3 cur (last_portc s)) CMD_UP
                           @ pair_if (falling PC2 cur (last_portc s)) CMD_LEFT) \<le> uart_free s
      \<longrightarrow> (\<exists>s'. PCINT1_vect cur s = Some s' \<and> last_portc s' = cur))
   \<and> (uart_ok s \<and> length (pair_if (falling PD5 cur (last_portd s)) CMD_ACTION_A
                           @ pair_if (falling PD2 cur (last_portd s)) CMD_ACTION_B) \<le> uart_free s
      \<longrightarrow> (\<exists>s'. PCINT2_vect cur s = Some s' \<and> last_portd s' = cur))
   \<and> (\<forall>s'. PCINT0_vect cur s = Some s' \<longrightarrow> last_portb s' = cur)
   \<and> (\<forall>s'. PCINT1_vect cur s = Some s' \<longrightarrow> last_portc s' = cur)
   \<and> (\<forall>s'. PCINT2_vect cur s = Some s' \<longrightarrow> last_portd s' = cur)
   \<and> (\<not> falling PB3 cur (last_portb s) \<and> \<not> falling PB4 cur (last_portb s) \<longrightarrow>
        PCINT0_vect cur s = Some (s\<lparr> last_portb := cur \<rparr>))
   \<and> (\<not> falling PC3 cur (last_portc s) \<and> \<not> falling PC2 cur (last_portc s) \<longrightarrow>
        PCINT1_vect cur s = Some (s\<lparr> last_portc := cur \<rparr>))
   \<and> (\<not> falling PD5 cur (last_portd s) \<and> \<not> falling PD2 cur (last_portd s) \<longrightarrow>
        PCINT2_vect cur s = Some (s\<lparr> last_portd := cur \<rparr>))
   \<and> (uart_ok s \<and> 2 \<le> uart_free s \<and> last_portb s = 0x18 \<longrightarrow>
        (\<exists>s'. PCINT0_vect 0x10 s = Some s' \<and> accepted s' = accepted s @ [CHR ''D'', CHR 0x0A]
             \<and> last_portb s' = 0x10))"
proof -
  have rb: "\<exists>s'. PCINT0_vect cur s = Some s' \<and> last_portb s' = cur"
    if "uart_ok s \<and> length (pair_if (falling PB3 cur (last_portb s)) CMD_DOWN
                         @ pair_if (falling PB4 cur (last_portb s)) CMD_RIGHT) \<le> uart_free s"
    using PCINT0_emits [of s cur] that by blast
  have rc: "\<exists>s'. PCINT1_vect cur s = Some s' \<and> last_portc s' = cur"
    if "uart_ok s \<and> length (pair_if (falling PC3 cur (last_portc s)) CMD_UP
                           @ pair_if (falling PC2 cur (last_portc s)) CMD_LEFT) \<le> uart_free s"
    using PCINT1_emits [of s cur] that by blast
  have rd: "\<exists>s'. PCINT2_vect cur s = Some s' \<and> last_portd s' = cur"
    if "uart_ok s \<and> length (pair_if (falling PD5 cur (last_portd s)) CMD_ACTION_A
                           @ pair_if (falling PD2 cur (last_portd s)) CMD_ACTION_B) \<le> uart_free s"
    using PCINT2_emits [of s cur] that by blast
  have sc: "\<exists>s'. PCINT0_vect 0x10 s = Some s' \<and> accepted s' = accepted s @ [CHR ''D'', CHR 0x0A]
             \<and> last_portb s' = 0x10"
    if h: "uart_ok s \<and> 2 \<le> uart_free s \<and> last_portb s = 0x18"
  proof -
    from h have ok: "uart_ok s" and p: "last_portb s = 0x18" by simp_all
    from h have "length (pair_if (falling PB3 0x10 (last_portb s)) CMD_DOWN
                    @ pair_if (falling PB4 0x10 (last_portb s)) CMD_RIGHT) \<le> uart_free s"
      by (simp add: pair_if_def falls_eval)
    from PCINT0_emits [OF ok this] show ?thesis
      by (auto simp add: p pair_if_def falls_eval CMD_DOWN_def NEWLINE_def)
  qed
  from rb rc rd PCINT_snapshot [of cur s] PCINT0_quiet [of cur s] PCINT1_quiet [of cur s]
    PCINT2_quiet [of cur s] sc
  show ?thesis by blast
qed

theorem snapshot_stored_witness:
  "PCINT0_vect 0x10 (initial\<lparr> last_portb := 0x18, last_portc := 0x0C, last_portd := 0x24 \<rparr>) \<noteq> None
   \<and> last_portb (the (PCINT0_vect 0x10
        (initial\<lparr> last_portb := 0x18, last_portc := 0x0C, last_portd := 0x24 \<rparr>))) = 0x10
   \<and> accepted (the (PCINT0_vect 0x10
        (initial\<lparr> last_portb := 0x18, last_portc := 0x0C, last_portd := 0x24 \<rparr>))) = ''D'' @ [CHR 0x0A]
   \<and> falling PC2 0x08 0x0C
   \<and> (\<exists>s'. PCINT1_vect 0x08 (initial\<lparr> last_portb := 0x18, last_portc := 0x0C, last_portd := 0x24 \<rparr>)
              = Some s' \<and> last_portc s' = 0x08)
   \<and> falling PD5 0x04 0x24
   \<and> (\<exists>s'. PCINT2_vect 0x04 (initial\<lparr> last_portb := 0x18, last_portc := 0x0C, last_portd := 0x24 \<rparr>)
              = Some s' \<and> last_portd s' = 0x04)"
proof -
  let ?S = "initial\<lparr> last_portb := 0x18, last_portc := 0x0C, last_portd := 0x24 \<rparr>"
  have h: "uart_ok ?S \<and> 2 \<le> uart_free ?S \<and> last_portb ?S = 0x18"
    by (simp add: idle_high_ok idle_high_free)
  have fc: "falling PC2 0x08 0x0C" and fd: "falling PD5 0x04 0x24"
    by (simp_all add: falling_high_low PC2_def PD5_def)
  have lc: "uart_ok ?S \<and> length (pair_if (falling PC3 0x08 (last_portc ?S)) CMD_UP
                           @ pair_if (falling PC2 0x08 (last_portc ?S)) CMD_LEFT) \<le> uart_free ?S"
    and ld: "uart_ok ?S \<and> length (pair_if (falling PD5 0x04 (last_portd ?S)) CMD_ACTION_A
                           @ pair_if (falling PD2 0x04 (last_portd ?S)) CMD_ACTION_B) \<le> uart_free ?S"
    by (simp_all add: idle_high_ok idle_high_free pair_if_def)
  from snapshot_stored [of ?S "0x10"] h
  have b: "\<exists>s'. PCINT0_vect 0x10 ?S = Some s' \<and> accepted s' = accepted ?S @ [CHR ''D'', CHR 0x0A]
             \<and> last_portb s' = 0x10" by blast
  from snapshot_stored [of ?S "0x08"] lc
  have c: "\<exists>s'. PCINT1_vect 0x08 ?S = Some s' \<and> last_portc s' = 0x08" by blast
  from snapshot_stored [of ?S "0x04"] ld
  have d: "\<exists>s'. PCINT2_vect 0x04 ?S = Some s' \<and> last_portd s' = 0x04" by blast
  from b have "PCINT0_vect 0x10 ?S \<noteq> None
     \<and> last_portb (the (PCINT0_vect 0x10 ?S)) = 0x10
     \<and> accepted (the (PCINT0_vect 0x10 ?S)) = ''D'' @ [CHR 0x0A]"
    by (auto simp add: initial_accepted)
  with fc c fd d show ?thesis by blast
qed

section \<open>The heartbeat\<close>

lemma counter_below:
  fixes c :: "16 word"
  assumes "unat c < 999"
  shows "unat (c + 1) = Suc (unat c)" and "\<not> 1000 \<le> c + 1"
proof -
  from assms have "unat c + unat (1 :: 16 word) < 2 ^ LENGTH(16)" by simp
  then have "unat (c + 1) = unat c + unat (1 :: 16 word)" by (simp only: unat_add_lem)
  then show u: "unat (c + 1) = Suc (unat c)" by simp
  from assms u show "\<not> 1000 \<le> c + 1" by (simp add: word_le_nat_alt)
qed

lemma main_loop_quiet:
  "k + unat c < 1000 \<Longrightarrow> main_loop n k (c, s) = Some (c + of_nat k, s)"
proof (induction k arbitrary: c)
  case 0
  show ?case by simp
next
  case (Suc k)
  then have c: "unat c < 999" by simp
  from counter_below [OF c] have b: "main_loop_body n (c, s) = Some (c + 1, s)"
    by (simp add: main_loop_body_def Let_def)
  from Suc.prems counter_below(1) [OF c] have "k + unat (c + 1) < 1000" by simp
  from Suc.IH [OF this] b show ?case by (simp add: add.assoc)
qed

lemma main_loop_add:
  "main_loop n (k + m) x =
     (case main_loop n k x of None \<Rightarrow> None | Some y \<Rightarrow> main_loop n m y)"
  by (induction k arbitrary: x) (auto split: option.splits)

lemma heartbeat_iteration:
  assumes ok: "uart_ok s" and room: "2 \<le> uart_free s"
  shows "\<exists>s'. main_loop_body n (999, s) = Some (0, s')
              \<and> accepted s' = accepted s @ [CMD_HEARTBEAT, NEWLINE]"
proof -
  from room have "1 \<le> uart_free s" by simp
  from send_room [OF ok this, of n CMD_HEARTBEAT] obtain s1 where
    1: "uart_send_char n CMD_HEARTBEAT s = Some s1" "accepted s1 = accepted s @ [CMD_HEARTBEAT]"
       "uart_ok s1" "uart_free s \<le> Suc (uart_free s1)" by blast
  with room have "1 \<le> uart_free s1" by simp
  from send_room [OF 1(3) this, of n NEWLINE] obtain s2 where
    2: "uart_send_char n NEWLINE s1 = Some s2" "accepted s2 = accepted s1 @ [NEWLINE]" by blast
  from 1 2 show ?thesis by (simp add: main_loop_body_def)
qed

text \<open>
  Claim C10. From a zero counter, with the transmitter left alone and room for two
  bytes, the first 999 iterations of the main loop enqueue nothing and only count;
  the 1000th enqueues \<open>'H'\<close> and newline, once, and resets the counter to zero, so the
  next 1000 iterations start as these did.
\<close>

theorem heartbeat_period:
  assumes ok: "uart_ok s" and room: "2 \<le> uart_free s"
  shows "(\<forall>k < 1000. main_loop n k (0, s) = Some (of_nat k, s))
       \<and> (\<exists>s'. main_loop n 1000 (0, s) = Some (0, s')
               \<and> accepted s' = accepted s @ [CMD_HEARTBEAT, NEWLINE])"
proof
  show "\<forall>k < 1000. main_loop n k (0, s) = Some (of_nat k, s)"
    using main_loop_quiet [of _ 0 n s] by simp
next
  have "main_loop n (999 + 1) (0, s) = main_loop_body n (999, s)"
    using main_loop_quiet [of 999 0 n s]
    by (simp only: main_loop_add) (simp split: option.splits)
  with heartbeat_iteration [OF ok room, of n]
  show "\<exists>s'. main_loop n 1000 (0, s) = Some (0, s')
               \<and> accepted s' = accepted s @ [CMD_HEARTBEAT, NEWLINE]" by simp
qed

theorem heartbeat_period_witness:
  "uart_ok initial \<and> 2 \<le> uart_free initial
   \<and> main_loop 0 999 (0, initial) = Some (999, initial)
   \<and> (\<exists>s'. main_loop 0 1000 (0, initial) = Some (0, s') \<and> accepted s' = [CMD_HEARTBEAT, NEWLINE])"
proof -
  have ok: "uart_ok initial" and room: "2 \<le> uart_free initial"
    by (simp_all add: uart_ok_def uart_free_def qlen_def ring_dist_def initial_def
          UART_BUFFER_SIZE_def)
  note h = heartbeat_period [OF ok room, of 0]
  from h have "main_loop 0 999 (0, initial) = Some (of_nat 999, initial)" by simp
  then have 1: "main_loop 0 999 (0, initial) = Some (999, initial)" by simp
  from h have 2: "\<exists>s'. main_loop 0 1000 (0, initial) = Some (0, s')
                      \<and> accepted s' = [CMD_HEARTBEAT, NEWLINE]"
    by (simp add: initial_accepted)
  from ok room 1 2 show ?thesis by (intro conjI)
qed

end
